theory Spec2Isabelle
  imports Main "HOL-Library.Word"
begin

section \<open>Manga Secure Proxy and Silent Smart Cacher (server.js)\<close>

text \<open>
  A shallow embedding of \<^verbatim>\<open>src/server.js\<close>. JavaScript numbers that the worker uses as
  indices and page offsets are modelled as \<open>int\<close> (the values the code computes are
  integers far below \<open>2^53\<close>, where the arithmetic of doubles is exact); strings are
  lists of 8-bit code units. Everything the worker obtains from its platform (the clock,
  the origin server, the catalog feed, \<^verbatim>\<open>JSON.parse\<close>, the HMAC of Web Crypto, the edge
  cache) is a parameter of the model, so every theorem holds for all behaviours of the
  platform. The text of the stored checkpoint is, in addition, read by the JSON grammar
  itself.
\<close>

subsection \<open>Configuration constants\<close>

definition SECRET_KEY :: string where
  "SECRET_KEY = ''SUPER_SECRET_SAFE_KEY_123456''"

definition BATCH_SIZE :: int where
  "BATCH_SIZE = 5"

definition CACHE_TTL :: int where
  "CACHE_TTL = 2592000"

subsection \<open>Numbers as text\<close>

text \<open>
  Template literals and \<^verbatim>\<open>JSON.stringify\<close> render an integer in decimal, with a minus
  sign when it is negative.
\<close>

definition digit_char :: "nat \<Rightarrow> char" where
  "digit_char d = ''0123456789abcdef'' ! d"

function show_nat :: "nat \<Rightarrow> string" where
  "show_nat n = (if n < 10 then [digit_char n] else show_nat (n div 10) @ [digit_char (n mod 10)])"
  by pat_completeness auto
termination
  by (relation "measure (\<lambda>n. n)") auto

declare show_nat.simps [simp del]

definition show_int :: "int \<Rightarrow> string" where
  "show_int i = (if i < 0 then CHR ''-'' # show_nat (nat (- i)) else show_nat (nat i))"

subsection \<open>HTTP responses and the origin\<close>

text \<open>
  A \<^verbatim>\<open>Headers\<close> object is a map from lower-cased header names to values: \<^verbatim>\<open>set\<close>
  replaces the value stored under the name, whatever its letter case.
\<close>

type_synonym headers = "string \<Rightarrow> string option"

definition lower_char :: "char \<Rightarrow> char" where
  "lower_char c =
     (case map_of (zip ''ABCDEFGHIJKLMNOPQRSTUVWXYZ'' ''abcdefghijklmnopqrstuvwxyz'') c of
        None \<Rightarrow> c
      | Some l \<Rightarrow> l)"

definition headers_set :: "headers \<Rightarrow> string \<Rightarrow> string \<Rightarrow> headers" where
  "headers_set h k v = h(map lower_char k \<mapsto> v)"

definition headers_get :: "headers \<Rightarrow> string \<Rightarrow> string option" where
  "headers_get h k = h (map lower_char k)"

record response =
  status :: nat
  hdrs :: headers
  body :: string

text \<open>\<^verbatim>\<open>res.ok\<close>: the status is in the range 200 to 299.\<close>

definition ok :: "response \<Rightarrow> bool" where
  "ok r = (200 \<le> status r \<and> status r \<le> 299)"

text \<open>
  A \<^verbatim>\<open>fetch\<close> either rejects (a network error) or resolves to a response;
  \<open>drains\<close> says whether reading the whole body of the response succeeds.
\<close>

datatype origin_reply = NetFail | Reply response (drains: bool)

subsection \<open>Page warm-up (warmUpPage)\<close>

definition warm_base :: "string \<Rightarrow> int \<Rightarrow> string" where
  "warm_base mangaName chapter =
     ''https://cdne.megaman-server.ir/564/'' @ mangaName @ ''/'' @ show_int chapter"

definition warm_urls :: "string \<Rightarrow> int \<Rightarrow> int \<Rightarrow> string list" where
  "warm_urls mangaName chapter page =
     [warm_base mangaName chapter @ ''/HD/'' @ show_int page @ ''.webp'',
      warm_base mangaName chapter @ ''/'' @ show_int page @ ''.webp'']"

text \<open>
  The loop over the two URL variants, inside \<^verbatim>\<open>try\<close>: a status 200 whose body drains
  returns true; a rejected fetch or a failed body read lands in \<^verbatim>\<open>catch\<close> and returns
  false without trying the next variant; any other status moves on to the next variant.
\<close>

fun warm_loop :: "(string \<Rightarrow> origin_reply) \<Rightarrow> string list \<Rightarrow> bool" where
  "warm_loop origin [] = False"
| "warm_loop origin (url # urls) =
     (case origin url of
        NetFail \<Rightarrow> False
      | Reply res d \<Rightarrow> if status res = 200 then d else warm_loop origin urls)"

definition warmUpPage :: "(string \<Rightarrow> origin_reply) \<Rightarrow> string \<Rightarrow> int \<Rightarrow> int \<Rightarrow> bool" where
  "warmUpPage origin mangaName chapter page = warm_loop origin (warm_urls mangaName chapter page)"

subsection \<open>The checkpoint and its store\<close>

record checkpoint =
  mIdx :: int
  cIdx :: int
  pIdx :: int

definition default_state :: checkpoint where
  "default_state = \<lparr>mIdx = 0, cIdx = 1, pIdx = 0\<rparr>"

text \<open>\<^verbatim>\<open>JSON.stringify({ mIdx: i, cIdx: c, pIdx: p })\<close> for integers.\<close>

definition JSON_stringify :: "checkpoint \<Rightarrow> string" where
  \<open>JSON_stringify st =
     ''{"mIdx":'' @ show_int (mIdx st) @ '',"cIdx":'' @ show_int (cIdx st) @
     '',"pIdx":'' @ show_int (pIdx st) @ ''}''\<close>

text \<open>
  \<^verbatim>\<open>JSON.parse\<close> either throws a SyntaxError or yields a value. The job is modelled for
  stored values that are a triple of integers, the shape the worker itself writes, with
  the reading of the stored text as a parameter. What lines 68 to 72 load from any other
  text is \<open>stored_state\<close>, further down, which reads the text by the JSON grammar.
\<close>

datatype parsed = SyntaxError | Parsed checkpoint

type_synonym kv_store = "string \<Rightarrow> string option"

text \<open>
  Lines 68 to 72 on such a store: the default triple, replaced by the parsed stored value
  when the store holds a non-empty string (\<^verbatim>\<open>if (stateRaw)\<close>) that parses.
\<close>

definition load_state :: "(string \<Rightarrow> parsed) \<Rightarrow> kv_store \<Rightarrow> checkpoint" where
  "load_state parse store =
     (case store ''nightly_step'' of
        None \<Rightarrow> default_state
      | Some stateRaw \<Rightarrow>
          if stateRaw = [] then default_state
          else (case parse stateRaw of SyntaxError \<Rightarrow> default_state | Parsed st \<Rightarrow> st))"

definition persist_state :: "kv_store \<Rightarrow> checkpoint \<Rightarrow> kv_store" where
  "persist_state store st = store(''nightly_step'' \<mapsto> JSON_stringify st)"

subsection \<open>The warming job (runSmartCacher)\<close>

record manga =
  name :: string
  chapters :: int

datatype catalog_payload = BadJson | NotArray | Array "manga list"

datatype catalog_fetch = FetchFailed | Fetched bool catalog_payload

text \<open>
  The platform as the job sees it. \<open>now_at w n\<close> is the reading of \<^verbatim>\<open>Date.now()\<close> at the
  time check that follows batch round \<open>n\<close> of the invocation (rounds are counted from 0),
  and \<open>origin_at w n\<close> is how the origin answers during that round.
\<close>

record world =
  start_time :: int
  now_at :: "nat \<Rightarrow> int"
  catalog :: catalog_fetch
  origin_at :: "nat \<Rightarrow> string \<Rightarrow> origin_reply"
  JSON_parse :: "string \<Rightarrow> parsed"

text \<open>One batch round as the job performed it: the loop counters and the results.\<close>

record batch_round =
  r_manga :: int
  r_chapter :: int
  r_offset :: int
  r_results :: "bool list"

text \<open>
  What the invocation mutates: the checkpoint store, the local object \<^verbatim>\<open>state\<close>, and
  (as a record of its effects) the batch rounds issued so far.
\<close>

record cacher =
  kv :: kv_store
  state :: checkpoint
  rounds :: "batch_round list"

text \<open>
  How a loop ends: \<open>Next\<close> it ran to its end, \<open>Return\<close> the function returned,
  \<open>Throw\<close> a TypeError escaped, \<open>OutOfFuel\<close> the page loop was still running when the
  fuel of the model ran out.
\<close>

datatype flow = Next | Return | Throw | OutOfFuel

text \<open>\<^verbatim>\<open>results.indexOf(v)\<close>: the first position of \<open>v\<close>, or \<open>-1\<close>.\<close>

fun indexOf :: "'a list \<Rightarrow> 'a \<Rightarrow> int" where
  "indexOf [] v = - 1"
| "indexOf (x # xs) v =
     (if x = v then 0 else (let k = indexOf xs v in if k = - 1 then - 1 else k + 1))"

text \<open>The page numbers of a batch: \<^verbatim>\<open>p + b\<close> for \<^verbatim>\<open>b\<close> from 0 below \<^verbatim>\<open>BATCH_SIZE\<close>.\<close>

definition batch_pages :: "int \<Rightarrow> int list" where
  "batch_pages p = map (\<lambda>b. p + b) [0 .. BATCH_SIZE - 1]"

definition run_batch :: "(string \<Rightarrow> origin_reply) \<Rightarrow> string \<Rightarrow> int \<Rightarrow> int \<Rightarrow> bool list" where
  "run_batch origin mangaName c p = map (\<lambda>pageNum. warmUpPage origin mangaName c pageNum) (batch_pages p)"

text \<open>Lines 89 to 96: the new page offset and the flag \<^verbatim>\<open>chapterFinished\<close>.\<close>

definition reduce_batch :: "int \<Rightarrow> bool list \<Rightarrow> int \<times> bool" where
  "reduce_batch p results =
     (let failIndex = indexOf results False
      in if failIndex \<noteq> - 1 then (p + failIndex, True) else (p + BATCH_SIZE, False))"

definition over_budget :: "world \<Rightarrow> nat \<Rightarrow> bool" where
  "over_budget w n = (now_at w n - start_time w > 24000)"

text \<open>The \<^verbatim>\<open>while (!chapterFinished)\<close> loop; each round uses one unit of fuel.\<close>

fun scan_pages :: "world \<Rightarrow> nat \<Rightarrow> manga \<Rightarrow> int \<Rightarrow> int \<Rightarrow> int \<Rightarrow> cacher \<Rightarrow> flow \<times> cacher" where
  "scan_pages w 0 m i c p s = (OutOfFuel, s)"
| "scan_pages w (Suc fuel) m i c p s =
     (let n = length (rounds s);
          results = run_batch (origin_at w n) (name m) c p;
          (p', chapterFinished) = reduce_batch p results;
          s' = s\<lparr>rounds := rounds s @
                 [\<lparr>r_manga = i, r_chapter = c, r_offset = p, r_results = results\<rparr>]\<rparr>
      in if over_budget w n
         then (Return, s'\<lparr>kv := persist_state (kv s') \<lparr>mIdx = i, cIdx = c, pIdx = p'\<rparr>\<rparr>)
         else if chapterFinished then (Next, s')
         else scan_pages w fuel m i c p' s')"

text \<open>The loop over the chapters of one manga.\<close>

function scan_chapters :: "world \<Rightarrow> nat \<Rightarrow> manga \<Rightarrow> int \<Rightarrow> int \<Rightarrow> cacher \<Rightarrow> flow \<times> cacher" where
  "scan_chapters w fuel m i c s =
     (if c \<le> chapters m then
        (let p = (if i = mIdx (state s) \<and> c = cIdx (state s) then pIdx (state s) else 0)
         in case scan_pages w fuel m i c p s of
              (Next, s') \<Rightarrow> scan_chapters w fuel m i (c + 1) (s'\<lparr>state := (state s')\<lparr>pIdx := 0\<rparr>\<rparr>)
            | (fl, s') \<Rightarrow> (fl, s'))
      else (Next, s))"
  by pat_completeness auto
termination
  by (relation "measure (\<lambda>(w, fuel, m, i, c, s). nat (chapters m + 1 - c))") auto

declare scan_chapters.simps [simp del]

text \<open>
  The loop over the catalog. For a negative index below the length, \<^verbatim>\<open>mangaList[i]\<close> is
  undefined and reading \<^verbatim>\<open>manga.chapters\<close> raises a TypeError.
\<close>

function scan_mangas :: "world \<Rightarrow> nat \<Rightarrow> manga list \<Rightarrow> int \<Rightarrow> cacher \<Rightarrow> flow \<times> cacher" where
  "scan_mangas w fuel mangaList i s =
     (if i < int (length mangaList) then
        (if i < 0 then (Throw, s)
         else
           (let m = mangaList ! nat i;
                c = (if i = mIdx (state s) then cIdx (state s) else 1)
            in case scan_chapters w fuel m i c s of
                 (Next, s') \<Rightarrow> scan_mangas w fuel mangaList (i + 1) (s'\<lparr>state := (state s')\<lparr>cIdx := 1\<rparr>\<rparr>)
               | (fl, s') \<Rightarrow> (fl, s')))
      else (Next, s))"
  by pat_completeness auto
termination
  by (relation "measure (\<lambda>(w, fuel, mangaList, i, s). nat (int (length mangaList) - i))") auto

declare scan_mangas.simps [simp del]

text \<open>
  The whole job, started on the store \<open>store\<close>. It returns at once when the catalog fetch
  fails, is not a success, or does not carry a JSON array; otherwise it loads the
  checkpoint, traverses, and resets the checkpoint when the traversal runs to its end.
\<close>

definition runSmartCacher :: "world \<Rightarrow> nat \<Rightarrow> kv_store \<Rightarrow> flow \<times> cacher" where
  "runSmartCacher w fuel store =
     (let s0 = \<lparr>kv = store, state = default_state, rounds = []\<rparr>
      in case catalog w of
           FetchFailed \<Rightarrow> (Return, s0)
         | Fetched response_ok payload \<Rightarrow>
             if \<not> response_ok then (Return, s0)
             else (case payload of
                     BadJson \<Rightarrow> (Return, s0)
                   | NotArray \<Rightarrow> (Return, s0)
                   | Array mangaList \<Rightarrow>
                       (let s1 = s0\<lparr>state := load_state (JSON_parse w) store\<rparr>
                        in case scan_mangas w fuel mangaList (mIdx (state s1)) s1 of
                             (Next, s2) \<Rightarrow>
                               (Return, s2\<lparr>kv := persist_state (kv s2) \<lparr>mIdx = 0, cIdx = 1, pIdx = 0\<rparr>\<rparr>)
                           | (fl, s2) \<Rightarrow> (fl, s2))))"

subsection \<open>Signature verification (verifySignature)\<close>

text \<open>
  \<^verbatim>\<open>parseInt(string, radix)\<close> of ECMAScript on strings of 8-bit code units: leading white
  space is skipped, then an optional sign, then (when the radix is absent or 16) an
  optional prefix \<^verbatim>\<open>0x\<close>, then the longest run of digits of the radix. The result is
  \<open>None\<close> (NaN) when that run is empty or the radix is not 0 and outside 2 to 36. An
  absent radix is \<open>None\<close> and counts as 0, which selects radix 10.
\<close>

definition is_space :: "char \<Rightarrow> bool" where
  "is_space c = (c \<in> set [CHR 0x09, CHR 0x0A, CHR 0x0B, CHR 0x0C, CHR 0x0D, CHR 0x20, CHR 0xA0])"

definition digit_val :: "char \<Rightarrow> nat option" where
  "digit_val c =
     (let n = (of_char c :: nat)
      in if 48 \<le> n \<and> n \<le> 57 then Some (n - 48)
         else if 97 \<le> n \<and> n \<le> 122 then Some (n - 87)
         else if 65 \<le> n \<and> n \<le> 90 then Some (n - 55)
         else None)"

definition is_digit :: "nat \<Rightarrow> char \<Rightarrow> bool" where
  "is_digit r c = (case digit_val c of None \<Rightarrow> False | Some d \<Rightarrow> d < r)"

definition digits_value :: "nat \<Rightarrow> string \<Rightarrow> nat" where
  "digits_value r z = foldl (\<lambda>acc c. acc * r + (case digit_val c of None \<Rightarrow> 0 | Some d \<Rightarrow> d)) 0 z"

definition parseInt :: "string \<Rightarrow> nat option \<Rightarrow> int option" where
  "parseInt str radix =
     (let s1 = dropWhile is_space str;
          sign = (if take 1 s1 = ''-'' then - 1 else 1);
          s2 = (if take 1 s1 = ''+'' \<or> take 1 s1 = ''-'' then drop 1 s1 else s1);
          R = (case radix of None \<Rightarrow> 0 | Some k \<Rightarrow> k);
          stripPrefix = (R = 0 \<or> R = 16);
          prefixed = (stripPrefix \<and> (take 2 s2 = ''0x'' \<or> take 2 s2 = ''0X''));
          r = (if prefixed then 16 else if R = 0 then 10 else R);
          s3 = (if prefixed then drop 2 s2 else s2);
          z = takeWhile (is_digit r) s3
      in if R \<noteq> 0 \<and> (R < 2 \<or> 36 < R) then None
         else if z = [] then None
         else Some (sign * int (digits_value r z)))"

text \<open>
  \<^verbatim>\<open>sig.match(/.{1,2}/g)\<close>: the successive greedy matches of one or two code units other
  than line terminators. JavaScript returns \<^verbatim>\<open>null\<close> when there is no match.
\<close>

definition line_terminator :: "char \<Rightarrow> bool" where
  "line_terminator c = (c = CHR 0x0A \<or> c = CHR 0x0D)"

fun chunks :: "string \<Rightarrow> string list" where
  "chunks [] = []"
| "chunks [a] = (if line_terminator a then [] else [[a]])"
| "chunks (a # b # rest) =
     (if line_terminator a then chunks (b # rest)
      else if line_terminator b then [a] # chunks rest
      else [a, b] # chunks rest)"

text \<open>An element of a \<^verbatim>\<open>Uint8Array\<close> built from a number: NaN gives 0, an integer wraps.\<close>

definition to_uint8 :: "int option \<Rightarrow> 8 word" where
  "to_uint8 x = (case x of None \<Rightarrow> 0 | Some n \<Rightarrow> word_of_int n)"

datatype js_error = TypeError | NetworkError

text \<open>\<^verbatim>\<open>Math.abs(now - parseInt(timestamp)) > 3600\<close>; any comparison with NaN is false.\<close>

definition expired :: "int \<Rightarrow> string \<Rightarrow> bool" where
  "expired now timestamp =
     (case parseInt timestamp None of None \<Rightarrow> False | Some t \<Rightarrow> \<bar>now - t\<bar> > 3600)"

text \<open>
  The body of the \<^verbatim>\<open>try\<close> block. \<open>hmac secret data\<close> is the HMAC-SHA-256 tag that Web
  Crypto computes, and \<^verbatim>\<open>crypto.subtle.verify\<close> compares the given signature bytes with
  it. \<open>now_ms\<close> is the reading of \<^verbatim>\<open>Date.now()\<close>. A missing query parameter is \<open>None\<close>.
\<close>

definition verify_try :: "(string \<Rightarrow> string \<Rightarrow> 8 word list) \<Rightarrow> int \<Rightarrow> string \<Rightarrow> string option \<Rightarrow>
    string option \<Rightarrow> string \<Rightarrow> js_error + bool" where
  "verify_try hmac now_ms path timestamp sig secret =
     (case sig of
        None \<Rightarrow> Inr False
      | Some sg \<Rightarrow>
         (case timestamp of
            None \<Rightarrow> Inr False
          | Some ts \<Rightarrow>
              if sg = [] \<or> ts = [] then Inr False
              else if expired (now_ms div 1000) ts then Inr False
              else if chunks sg = [] then Inl TypeError
              else (let sigArray = map (\<lambda>byte. to_uint8 (parseInt byte (Some 16))) (chunks sg);
                        data = path @ '':'' @ ts
                    in Inr (sigArray = hmac secret data))))"

definition verifySignature :: "(string \<Rightarrow> string \<Rightarrow> 8 word list) \<Rightarrow> int \<Rightarrow> string \<Rightarrow> string option \<Rightarrow>
    string option \<Rightarrow> string \<Rightarrow> bool" where
  "verifySignature hmac now_ms path timestamp sig secret =
     (case verify_try hmac now_ms path timestamp sig secret of Inl e \<Rightarrow> False | Inr b \<Rightarrow> b)"

subsection \<open>The proxy (handleMangaLogic) and the fetch handler\<close>

text \<open>
  \<^verbatim>\<open>new Response(text, { status })\<close> with a string body: the constructor adds the content
  type of plain text unless the given headers name one.
\<close>

definition text_response :: "string \<Rightarrow> nat \<Rightarrow> headers \<Rightarrow> response" where
  "text_response text st h =
     \<lparr>status = st,
      hdrs = (case headers_get h ''Content-Type'' of
                None \<Rightarrow> headers_set h ''Content-Type'' ''text/plain;charset=UTF-8''
              | Some v \<Rightarrow> h),
      body = text\<rparr>"

text \<open>
  What serving one request did: the response, the origin URLs fetched (in order), and the
  cache writes handed to \<^verbatim>\<open>ctx.waitUntil\<close>.
\<close>

record served =
  resp :: response
  fetched :: "string list"
  cache_puts :: "(string \<times> response) list"

text \<open>
  The loop over the targets. The edge cache is looked up by URL; a rejected origin fetch
  is not caught and escapes the handler.
\<close>

fun serve_targets :: "(string \<Rightarrow> response option) \<Rightarrow> (string \<Rightarrow> origin_reply) \<Rightarrow> string list \<Rightarrow>
    string list \<Rightarrow> js_error + served" where
  "serve_targets cache origin [] seen =
     Inr \<lparr>resp = text_response ''Manga Page Not Found'' 404 Map.empty, fetched = seen, cache_puts = []\<rparr>"
| "serve_targets cache origin (url # targets) seen =
     (case cache url of
        Some response \<Rightarrow>
          Inr \<lparr>resp = \<lparr>status = 200,
                       hdrs = headers_set (hdrs response) ''X-Proxy-Cache'' ''HIT-V3'',
                       body = body response\<rparr>,
               fetched = seen, cache_puts = []\<rparr>
      | None \<Rightarrow>
          (case origin url of
             NetFail \<Rightarrow> Inl NetworkError
           | Reply res d \<Rightarrow>
               if ok res then
                 (let h = headers_set (headers_set (headers_set (hdrs res)
                            ''Access-Control-Allow-Origin'' ''*'')
                            ''Cache-Control'' (''public, max-age='' @ show_int CACHE_TTL @ '', immutable''))
                            ''X-Proxy-Cache'' ''MISS'';
                      finalRes = \<lparr>status = 200, hdrs = h, body = body res\<rparr>
                  in Inr \<lparr>resp = finalRes, fetched = seen @ [url], cache_puts = [(url, finalRes)]\<rparr>)
               else serve_targets cache origin targets (seen @ [url])))"

text \<open>A missing element of a destructured array is \<^verbatim>\<open>undefined\<close>.\<close>

definition part :: "string list \<Rightarrow> nat \<Rightarrow> string" where
  "part pathParts k = (if k < length pathParts then pathParts ! k else ''undefined'')"

definition proxy_targets :: "string list \<Rightarrow> string list" where
  "proxy_targets pathParts =
     (let base = ''https://cdne.megaman-server.ir/564/'' @ part pathParts 0 @ ''/'' @ part pathParts 1
      in [base @ ''/HD/'' @ part pathParts 2, base @ ''/'' @ part pathParts 2])"

definition handleMangaLogic :: "(string \<Rightarrow> response option) \<Rightarrow> (string \<Rightarrow> origin_reply) \<Rightarrow> string list \<Rightarrow>
    js_error + served" where
  "handleMangaLogic cache origin pathParts = serve_targets cache origin (proxy_targets pathParts) []"

text \<open>\<^verbatim>\<open>str.split('/')\<close>.\<close>

fun split_on :: "char \<Rightarrow> string \<Rightarrow> string list" where
  "split_on d [] = [[]]"
| "split_on d (c # cs) =
     (if c = d then [] # split_on d cs
      else (case split_on d cs of [] \<Rightarrow> [[c]] | x # xs \<Rightarrow> (c # x) # xs))"

text \<open>
  A request as the handler reads it: the path of its URL and the query parameters
  \<^verbatim>\<open>sig\<close> and \<^verbatim>\<open>t\<close>; and the platform the handler runs on.
\<close>

record request =
  pathname :: string
  param_sig :: "string option"
  param_t :: "string option"

record platform =
  date_now :: int
  hmac_sha256 :: "string \<Rightarrow> string \<Rightarrow> 8 word list"
  edge_cache :: "string \<Rightarrow> response option"
  origin_server :: "string \<Rightarrow> origin_reply"

definition fetch_handler :: "platform \<Rightarrow> request \<Rightarrow> js_error + served" where
  "fetch_handler env req =
     (let pathParts = filter (\<lambda>p. p \<noteq> []) (split_on (CHR ''/'') (pathname req))
      in if length pathParts < 3 then
           Inr \<lparr>resp = text_response ''Manga Proxy Engine v3.1 | Status: Online'' 200
                         (headers_set Map.empty ''Content-Type'' ''text/plain; charset=utf-8''),
                fetched = [], cache_puts = []\<rparr>
         else if \<not> verifySignature (hmac_sha256 env) (date_now env) (pathname req) (param_t req)
                     (param_sig req) SECRET_KEY then
           Inr \<lparr>resp = text_response ''Access Denied: Invalid or Expired Signature'' 403 Map.empty,
                fetched = [], cache_puts = []\<rparr>
         else handleMangaLogic (edge_cache env) (origin_server env) pathParts)"

subsection \<open>The stored checkpoint text (lines 68 to 72)\<close>

text \<open>
  What lines 68 to 72 leave in \<^verbatim>\<open>state\<close> for an arbitrary stored text. The values that
  \<^verbatim>\<open>JSON.parse\<close> builds: \<^verbatim>\<open>null\<close>, a boolean, a number, a string (its UTF-16 code
  units), an array, or an object (its members in the order of the text; reading a
  property takes the last member of that name). A number is kept as its exact decimal
  value: \<open>JNumber n k\<close> is \<open>n / 10^k\<close> in lowest terms, so \<open>JNumber n 0\<close> is the integer
  \<open>n\<close> (JavaScript rounds the decimal value to the nearest double, which is the same
  number for integers below \<open>2^53\<close>; its \<^verbatim>\<open>-0\<close> is \<open>JNumber 0 0\<close>).
\<close>

datatype json =
    JNull
  | JBool bool
  | JNumber int nat
  | JString "nat list"
  | JArray "json list"
  | JObject "(nat list \<times> json) list"

definition units :: "string \<Rightarrow> nat list" where
  "units s = map of_char s"

fun lowest :: "int \<Rightarrow> nat \<Rightarrow> int \<times> nat" where
  "lowest n 0 = (n, 0)"
| "lowest n (Suc k) = (if n mod 10 = 0 then lowest (n div 10) k else (n, Suc k))"

text \<open>The number \<open>m * 10^e\<close>.\<close>

definition decimal :: "int \<Rightarrow> int \<Rightarrow> json" where
  "decimal m e =
     (if 0 \<le> e then JNumber (m * 10 ^ nat e) 0
      else (case lowest m (nat (- e)) of (n, k) \<Rightarrow> JNumber n k))"

text \<open>
  The JSON grammar of ECMA-404, which \<^verbatim>\<open>JSON.parse\<close> follows. White space is space, tab,
  line feed and carriage return. A number is an optional minus sign, an integer part
  (\<^verbatim>\<open>0\<close>, or a digit from 1 to 9 followed by digits), an optional fraction (a point and
  at least one digit) and an optional exponent (\<^verbatim>\<open>e\<close> or \<^verbatim>\<open>E\<close>, an optional sign and
  at least one digit). Each part is the longest match; a fraction or exponent that lacks
  its digits is left in the text, where no token starts with it.
\<close>

definition is_json_ws :: "char \<Rightarrow> bool" where
  "is_json_ws c = (c \<in> set [CHR 0x20, CHR 0x09, CHR 0x0A, CHR 0x0D])"

definition decimal_digits :: "string \<Rightarrow> int" where
  "decimal_digits z =
     foldl (\<lambda>acc c. acc * 10 + (case digit_val c of None \<Rightarrow> 0 | Some d \<Rightarrow> int d)) 0 z"

definition lex_int :: "string \<Rightarrow> (string \<times> string) option" where
  "lex_int s =
     (case s of
        [] \<Rightarrow> None
      | c # cs \<Rightarrow>
          if c = CHR ''0'' then Some (''0'', cs)
          else if is_digit 10 c then Some (takeWhile (is_digit 10) s, dropWhile (is_digit 10) s)
          else None)"

definition lex_frac :: "string \<Rightarrow> string \<times> string" where
  "lex_frac s =
     (case s of
        [] \<Rightarrow> ([], s)
      | c # cs \<Rightarrow>
          if c = CHR ''.'' \<and> takeWhile (is_digit 10) cs \<noteq> []
          then (takeWhile (is_digit 10) cs, dropWhile (is_digit 10) cs)
          else ([], s))"

definition lex_exp :: "string \<Rightarrow> int \<times> string" where
  "lex_exp s =
     (case s of
        [] \<Rightarrow> (0, s)
      | c # cs \<Rightarrow>
          if c = CHR ''e'' \<or> c = CHR ''E''
          then (let ds = (if take 1 cs = ''-'' \<or> take 1 cs = ''+'' then drop 1 cs else cs);
                    z = takeWhile (is_digit 10) ds
                in if z = [] then (0, s)
                   else ((if take 1 cs = ''-'' then - 1 else 1) * decimal_digits z,
                         dropWhile (is_digit 10) ds))
          else (0, s))"

definition lex_number :: "string \<Rightarrow> (json \<times> string) option" where
  "lex_number s =
     (let neg = (take 1 s = ''-'')
      in case lex_int (if neg then drop 1 s else s) of
           None \<Rightarrow> None
         | Some (ip, s2) \<Rightarrow>
            (case lex_frac s2 of
               (fp, s3) \<Rightarrow>
                 (case lex_exp s3 of
                    (ex, s4) \<Rightarrow>
                      Some (decimal ((if neg then - 1 else 1) * decimal_digits (ip @ fp))
                              (ex - int (length fp)), s4))))"

text \<open>
  A string, after its opening quotation mark: code units up to the closing quotation
  mark. A backslash introduces one of the eight short escapes or \<^verbatim>\<open>u\<close> and four
  hexadecimal digits; a control character (below \<open>0x20\<close>) is not allowed.
\<close>

definition escape :: "char \<Rightarrow> nat option" where
  "escape c =
     map_of [(CHR 0x22, 0x22), (CHR 0x5C, 0x5C), (CHR ''/'', 0x2F), (CHR ''b'', 0x08),
             (CHR ''f'', 0x0C), (CHR ''n'', 0x0A), (CHR ''r'', 0x0D), (CHR ''t'', 0x09)] c"

fun lex_string :: "string \<Rightarrow> nat list \<Rightarrow> (nat list \<times> string) option" where
  "lex_string [] acc = None"
| "lex_string (c # cs) acc =
     (if c = CHR 0x22 then Some (acc, cs)
      else if c = CHR 0x5C then
        (case cs of
           [] \<Rightarrow> None
         | e # r \<Rightarrow>
             if e = CHR ''u'' then
               (case r of
                  h1 # h2 # h3 # h4 # r' \<Rightarrow>
                    if list_all (is_digit 16) [h1, h2, h3, h4]
                    then lex_string r' (acc @ [digits_value 16 [h1, h2, h3, h4]])
                    else None
                | _ \<Rightarrow> None)
             else (case escape e of None \<Rightarrow> None | Some u \<Rightarrow> lex_string r (acc @ [u])))
      else if (of_char c :: nat) < 0x20 then None
      else lex_string cs (acc @ [of_char c]))"

fun strip_prefix :: "string \<Rightarrow> string \<Rightarrow> string option" where
  "strip_prefix [] s = Some s"
| "strip_prefix (p # ps) [] = None"
| "strip_prefix (p # ps) (c # cs) = (if p = c then strip_prefix ps cs else None)"

text \<open>
  The tokens of a text: the six structural characters, strings, and the scalars
  (numbers, \<^verbatim>\<open>true\<close>, \<^verbatim>\<open>false\<close>, \<^verbatim>\<open>null\<close>), with white space allowed between them.
  \<open>None\<close> is a SyntaxError. Every token takes at least one character, so the recursion
  ends.
\<close>

datatype token = LBrace | RBrace | LBracket | RBracket | Colon | Comma | TString "nat list" | TScalar json

function tokens :: "string \<Rightarrow> token list option" where
  "tokens [] = Some []"
| "tokens (c # cs) =
     (if is_json_ws c then tokens cs
      else if c = CHR ''{'' then map_option ((#) LBrace) (tokens cs)
      else if c = CHR ''}'' then map_option ((#) RBrace) (tokens cs)
      else if c = CHR ''['' then map_option ((#) LBracket) (tokens cs)
      else if c = CHR '']'' then map_option ((#) RBracket) (tokens cs)
      else if c = CHR '':'' then map_option ((#) Colon) (tokens cs)
      else if c = CHR '','' then map_option ((#) Comma) (tokens cs)
      else if c = CHR 0x22 then
        (case lex_string cs [] of
           None \<Rightarrow> None
         | Some (u, rest) \<Rightarrow> map_option ((#) (TString u)) (tokens rest))
      else if c = CHR ''t'' then
        (case strip_prefix ''rue'' cs of
           None \<Rightarrow> None
         | Some rest \<Rightarrow> map_option ((#) (TScalar (JBool True))) (tokens rest))
      else if c = CHR ''f'' then
        (case strip_prefix ''alse'' cs of
           None \<Rightarrow> None
         | Some rest \<Rightarrow> map_option ((#) (TScalar (JBool False))) (tokens rest))
      else if c = CHR ''n'' then
        (case strip_prefix ''ull'' cs of
           None \<Rightarrow> None
         | Some rest \<Rightarrow> map_option ((#) (TScalar JNull)) (tokens rest))
      else
        (case lex_number (c # cs) of
           None \<Rightarrow> None
         | Some (v, rest) \<Rightarrow> map_option ((#) (TScalar v)) (tokens rest)))"
  by pat_completeness auto
termination
proof -
  have str: "lex_string s acc = Some (u, rest) \<Longrightarrow> length rest < length s" for s acc u rest
  proof (induction s acc rule: lex_string.induct)
    case (1 acc)
    then show ?case by simp
  next
    case (2 c cs acc)
    show ?case
    proof (cases "c = CHR 0x22")
      case True
      with "2.prems" show ?thesis by simp
    next
      case q: False
      show ?thesis
      proof (cases "c = CHR 0x5C")
        case False
        with q "2.prems" have lt: "\<not> (of_char c :: nat) < 0x20"
          and r: "lex_string cs (acc @ [of_char c]) = Some (u, rest)"
          by (simp_all split: if_splits)
        from "2.IH"(3) [OF q False lt r] show ?thesis by simp
      next
        case True
        with q "2.prems" obtain e r where cs: "cs = e # r"
          by (cases cs) simp_all
        show ?thesis
        proof (cases "e = CHR ''u''")
          case False
          with q True cs "2.prems" obtain v where ev: "escape e = Some v"
            and r: "lex_string r (acc @ [v]) = Some (u, rest)"
            by (simp split: option.splits)
          from "2.IH"(2) [OF q True cs False ev r] show ?thesis by (simp add: cs)
        next
          case eu: True
          with q True cs "2.prems" obtain h1 h2 h3 h4 r' where r: "r = h1 # h2 # h3 # h4 # r'"
            and hx: "list_all (is_digit 16) [h1, h2, h3, h4]"
            and rr: "lex_string r' (acc @ [digits_value 16 [h1, h2, h3, h4]]) = Some (u, rest)"
            by (simp split: list.splits if_splits)
          from "2.IH"(1) [OF q True cs eu r refl refl refl hx rr] show ?thesis by (simp add: cs r)
        qed
      qed
    qed
  qed
  have pre: "strip_prefix p s = Some rest \<Longrightarrow> length rest \<le> length s" for p s rest
    by (induction p s rule: strip_prefix.induct) (auto split: if_splits)
  have drp: "length (dropWhile (is_digit 10) s) \<le> length s" for s
    by (rule length_dropWhile_le)
  have num: "lex_number s = Some (v, rest) \<Longrightarrow> length rest < length s" for s v rest
  proof -
    assume "lex_number s = Some (v, rest)"
    then obtain ip s2 fp s3 ex where
      a: "lex_int (if take 1 s = ''-'' then drop 1 s else s) = Some (ip, s2)"
      and b: "lex_frac s2 = (fp, s3)" and c: "lex_exp s3 = (ex, rest)"
      by (auto simp: lex_number_def Let_def split: option.splits prod.splits)
    have i: "length s2 < length s"
    proof (cases "if take 1 s = ''-'' then drop 1 s else s")
      case Nil
      with a show ?thesis by (simp add: lex_int_def)
    next
      case (Cons d ds)
      with a have "s2 = ds \<or> s2 = dropWhile (is_digit 10) ds"
        by (auto simp: lex_int_def split: if_splits)
      with drp [of ds] have "length s2 \<le> length ds" by auto
      moreover have "length (if take 1 s = ''-'' then drop 1 s else s) \<le> length s" by simp
      with Cons have "length ds < length s" by simp
      ultimately show ?thesis by simp
    qed
    have f: "length s3 \<le> length s2"
    proof (cases s2)
      case Nil
      with b show ?thesis by (simp add: lex_frac_def)
    next
      case (Cons d ds)
      with b have "s3 = s2 \<or> s3 = dropWhile (is_digit 10) ds"
        by (auto simp: lex_frac_def split: if_splits)
      with Cons drp [of ds] show ?thesis by auto
    qed
    have e: "length rest \<le> length s3"
    proof (cases s3)
      case Nil
      with c show ?thesis by (simp add: lex_exp_def)
    next
      case (Cons d ds)
      with c have "rest = s3 \<or> rest = dropWhile (is_digit 10) ds \<or> rest = dropWhile (is_digit 10) (drop 1 ds)"
        by (auto simp: lex_exp_def Let_def split: if_splits)
      with Cons drp [of ds] drp [of "drop 1 ds"] show ?thesis by auto
    qed
    from i f e show ?thesis by simp
  qed
  show ?thesis
  proof (relation "measure length", goal_cases)
    case 1
    then show ?case by simp
  next
    case (9 c cs x2 x y)
    then show ?case using str [of cs "[]" x y] by simp
  next
    case (10 c cs x2)
    then show ?case using pre [of "''rue''" cs x2] by simp
  next
    case (11 c cs x2)
    then show ?case using pre [of "''alse''" cs x2] by simp
  next
    case (12 c cs x2)
    then show ?case using pre [of "''ull''" cs x2] by simp
  next
    case (13 c cs x2 x y)
    then show ?case using num [of "c # cs" x y] by simp
  qed simp_all
qed

declare tokens.simps [simp del]

text \<open>
  The value of a token sequence. \<open>frame\<close> is an array or an object under construction (an
  object with the name whose value is awaited, once that name is read); the stack holds
  the enclosing ones. \<open>expect\<close> is what the grammar admits next. A separator is a comma
  or the closing bracket of the innermost frame. The text is one value: once it is
  complete no further token is admitted.
\<close>

datatype frame = FArray "json list" | FObject "(nat list \<times> json) list" "nat list option"

datatype expect = AValue | AValueOrEnd | AKeyOrEnd | AKey | AColon | ASeparator | Finished json

definition deliver :: "json \<Rightarrow> frame list \<Rightarrow> (frame list \<times> expect) option" where
  "deliver v fs =
     (case fs of
        [] \<Rightarrow> Some ([], Finished v)
      | FArray vs # up \<Rightarrow> Some (FArray (vs @ [v]) # up, ASeparator)
      | FObject kvs None # up \<Rightarrow> None
      | FObject kvs (Some k) # up \<Rightarrow> Some (FObject (kvs @ [(k, v)]) None # up, ASeparator))"

definition open_value :: "token \<Rightarrow> frame list \<Rightarrow> (frame list \<times> expect) option" where
  "open_value tok fs =
     (case tok of
        TScalar v \<Rightarrow> deliver v fs
      | TString u \<Rightarrow> deliver (JString u) fs
      | LBracket \<Rightarrow> Some (FArray [] # fs, AValueOrEnd)
      | LBrace \<Rightarrow> Some (FObject [] None # fs, AKeyOrEnd)
      | _ \<Rightarrow> None)"

definition close_frame :: "token \<Rightarrow> frame list \<Rightarrow> (frame list \<times> expect) option" where
  "close_frame tok fs =
     (case fs of
        FArray vs # up \<Rightarrow> if tok = RBracket then deliver (JArray vs) up else None
      | FObject kvs None # up \<Rightarrow> if tok = RBrace then deliver (JObject kvs) up else None
      | _ \<Rightarrow> None)"

definition open_key :: "token \<Rightarrow> frame list \<Rightarrow> (frame list \<times> expect) option" where
  "open_key tok fs =
     (case (tok, fs) of
        (TString k, FObject kvs None # up) \<Rightarrow> Some (FObject kvs (Some k) # up, AColon)
      | _ \<Rightarrow> None)"

definition advance :: "token \<Rightarrow> frame list \<times> expect \<Rightarrow> (frame list \<times> expect) option" where
  "advance tok s =
     (case s of
        (fs, AValue) \<Rightarrow> open_value tok fs
      | (fs, AValueOrEnd) \<Rightarrow> if tok = RBracket then close_frame tok fs else open_value tok fs
      | (fs, AKeyOrEnd) \<Rightarrow> if tok = RBrace then close_frame tok fs else open_key tok fs
      | (fs, AKey) \<Rightarrow> open_key tok fs
      | (fs, AColon) \<Rightarrow> if tok = Colon then Some (fs, AValue) else None
      | (fs, ASeparator) \<Rightarrow>
          if tok = Comma
          then (case fs of
                  FArray vs # up \<Rightarrow> Some (fs, AValue)
                | FObject kvs ko # up \<Rightarrow> Some (fs, AKey)
                | [] \<Rightarrow> None)
          else close_frame tok fs
      | (fs, Finished v) \<Rightarrow> None)"

fun assemble :: "token list \<Rightarrow> frame list \<times> expect \<Rightarrow> json option" where
  "assemble [] s = (case snd s of Finished v \<Rightarrow> Some v | _ \<Rightarrow> None)"
| "assemble (tok # toks) s = (case advance tok s of None \<Rightarrow> None | Some s' \<Rightarrow> assemble toks s')"

text \<open>\<^verbatim>\<open>JSON.parse(text)\<close>: \<open>None\<close> when it throws a SyntaxError.\<close>

definition JSON_parse_text :: "string \<Rightarrow> json option" where
  "JSON_parse_text raw =
     (case tokens raw of None \<Rightarrow> None | Some toks \<Rightarrow> assemble toks ([], AValue))"

text \<open>The object literal \<^verbatim>\<open>{ mIdx: i, cIdx: c, pIdx: p }\<close>.\<close>

definition checkpoint_value :: "checkpoint \<Rightarrow> json" where
  "checkpoint_value st =
     JObject [(units ''mIdx'', JNumber (mIdx st) 0), (units ''cIdx'', JNumber (cIdx st) 0),
              (units ''pIdx'', JNumber (pIdx st) 0)]"

text \<open>
  Lines 68 to 72 for every stored text: the default object, replaced by whatever
  \<^verbatim>\<open>JSON.parse\<close> returns when the store holds a non-empty string on which it does not
  throw. Nothing checks the shape of the parsed value.
\<close>

definition stored_state :: "kv_store \<Rightarrow> json" where
  "stored_state store =
     (case store ''nightly_step'' of
        None \<Rightarrow> checkpoint_value default_state
      | Some stateRaw \<Rightarrow>
          if stateRaw = [] then checkpoint_value default_state
          else (case JSON_parse_text stateRaw of
                  None \<Rightarrow> checkpoint_value default_state
                | Some v \<Rightarrow> v))"

text \<open>
  Reading \<^verbatim>\<open>state.mIdx\<close>, \<^verbatim>\<open>state.cIdx\<close> and \<^verbatim>\<open>state.pIdx\<close>: a property of an object is
  its last member of that name. These three names are undefined (\<open>None\<close>) on an object
  without such a member and on a boolean, a number, a string and an array; on
  \<^verbatim>\<open>null\<close> the access raises a TypeError, and \<open>as_checkpoint\<close> is \<open>None\<close> there as well.
  \<open>as_checkpoint\<close> is the triple when all three are integers.
\<close>

definition property :: "json \<Rightarrow> string \<Rightarrow> json option" where
  "property v key = (case v of JObject kvs \<Rightarrow> map_of (rev kvs) (units key) | _ \<Rightarrow> None)"

definition integer_of :: "json option \<Rightarrow> int option" where
  "integer_of x = (case x of Some (JNumber n k) \<Rightarrow> if k = 0 then Some n else None | _ \<Rightarrow> None)"

definition as_checkpoint :: "json \<Rightarrow> checkpoint option" where
  "as_checkpoint v =
     (case integer_of (property v ''mIdx'') of
        None \<Rightarrow> None
      | Some i \<Rightarrow>
         (case integer_of (property v ''cIdx'') of
            None \<Rightarrow> None
          | Some c \<Rightarrow>
             (case integer_of (property v ''pIdx'') of
                None \<Rightarrow> None
              | Some p \<Rightarrow> Some \<lparr>mIdx = i, cIdx = c, pIdx = p\<rparr>)))"

text \<open>
  The job above is modelled for a store whose text, when it parses, parses to a triple of
  integers: \<open>parse\<close> then stands for \<^verbatim>\<open>JSON.parse\<close> followed by the reading of the three
  fields.
\<close>

definition reads_triple :: "(string \<Rightarrow> parsed) \<Rightarrow> kv_store \<Rightarrow> bool" where
  "reads_triple parse store =
     (case store ''nightly_step'' of
        None \<Rightarrow> True
      | Some stateRaw \<Rightarrow>
          stateRaw = [] \<or>
          (case JSON_parse_text stateRaw of
             None \<Rightarrow> parse stateRaw = SyntaxError
           | Some v \<Rightarrow>
              (case as_checkpoint v of
                 None \<Rightarrow> False
               | Some st \<Rightarrow> parse stateRaw = Parsed st)))"

subsection \<open>Vocabulary of the properties\<close>

text \<open>The checkpoint that a time-budget halt persists after round \<open>r\<close>.\<close>

definition halt_checkpoint :: "batch_round \<Rightarrow> checkpoint" where
  "halt_checkpoint r =
     \<lparr>mIdx = r_manga r, cIdx = r_chapter r, pIdx = fst (reduce_batch (r_offset r) (r_results r))\<rparr>"

text \<open>
  How a batch round \<open>r'\<close> may follow a round \<open>r\<close>: after a round without failure, the
  same chapter at the next offset; after a round with a failure, offset 0 of the next
  chapter of the same manga, or of chapter 1 of a later manga.
\<close>

definition follows :: "batch_round \<Rightarrow> batch_round \<Rightarrow> bool" where
  "follows r r' =
     (if False \<notin> set (r_results r)
      then r_manga r' = r_manga r \<and> r_chapter r' = r_chapter r \<and> r_offset r' = r_offset r + BATCH_SIZE
      else r_offset r' = 0 \<and>
           (r_manga r' = r_manga r \<and> r_chapter r' = r_chapter r + 1
            \<or> r_manga r < r_manga r' \<and> r_chapter r' = 1))"

text \<open>The rounds that a page loop started at offset \<open>p\<close> issues, the first being round \<open>n\<close>.\<close>

definition page_run :: "world \<Rightarrow> manga \<Rightarrow> int \<Rightarrow> int \<Rightarrow> int \<Rightarrow> nat \<Rightarrow> batch_round list \<Rightarrow> bool" where
  "page_run w m i c p n rs =
     (\<forall>k < length rs. rs ! k =
        \<lparr>r_manga = i, r_chapter = c, r_offset = p + BATCH_SIZE * int k,
         r_results = run_batch (origin_at w (n + k)) (name m) c (p + BATCH_SIZE * int k)\<rparr>)"

text \<open>
  What a stretch of the traversal that takes the job from \<open>s\<close> to \<open>s'\<close> and issues the
  rounds \<open>rs\<close> satisfies: the rounds are appended, the resumed manga index is not
  touched, each round follows its predecessor, the time budget is exceeded exactly at the
  last round of a stretch that returns, which then stores the checkpoint of that round, and
  the store is untouched otherwise.
\<close>

definition segment :: "world \<Rightarrow> cacher \<Rightarrow> flow \<Rightarrow> cacher \<Rightarrow> batch_round list \<Rightarrow> bool" where
  "segment w s fl s' rs =
     (rounds s' = rounds s @ rs \<and> mIdx (state s') = mIdx (state s) \<and> successively follows rs
      \<and> (\<forall>k < length rs. over_budget w (length (rounds s) + k) = (fl = Return \<and> Suc k = length rs))
      \<and> (fl = Return \<longrightarrow> rs \<noteq> [] \<and> kv s' = persist_state (kv s) (halt_checkpoint (last rs)))
      \<and> (fl \<noteq> Return \<longrightarrow> kv s' = kv s)
      \<and> (fl = Next \<longrightarrow> rs \<noteq> [] \<longrightarrow> False \<in> set (r_results (last rs))))"

text \<open>Rounds of manga \<open>m\<close> at index \<open>i\<close>, the first being round \<open>n\<close> of the invocation.\<close>

definition in_manga :: "world \<Rightarrow> manga \<Rightarrow> int \<Rightarrow> nat \<Rightarrow> batch_round list \<Rightarrow> bool" where
  "in_manga w m i n rs =
     (\<forall>k < length rs. r_manga (rs ! k) = i \<and> r_chapter (rs ! k) \<le> chapters m
        \<and> r_results (rs ! k) =
            run_batch (origin_at w (n + k)) (name m) (r_chapter (rs ! k)) (r_offset (rs ! k)))"

text \<open>Rounds over the catalog, the first being round \<open>n\<close> of the invocation.\<close>

definition in_catalog :: "world \<Rightarrow> manga list \<Rightarrow> nat \<Rightarrow> batch_round list \<Rightarrow> bool" where
  "in_catalog w mangaList n rs =
     (\<forall>k < length rs. 0 \<le> r_manga (rs ! k) \<and> r_manga (rs ! k) < int (length mangaList)
        \<and> r_chapter (rs ! k) \<le> chapters (mangaList ! nat (r_manga (rs ! k)))
        \<and> r_results (rs ! k) =
            run_batch (origin_at w (n + k)) (name (mangaList ! nat (r_manga (rs ! k))))
              (r_chapter (rs ! k)) (r_offset (rs ! k)))"

text \<open>
  What the proxy answers: a response served from the cache, a response filled from the
  origin (with the cache write that was scheduled), and the not-found response.
\<close>

definition is_hit :: "served \<Rightarrow> response \<Rightarrow> bool" where
  "is_hit r cached =
     (status (resp r) = 200 \<and> body (resp r) = body cached
      \<and> headers_get (hdrs (resp r)) ''X-Proxy-Cache'' = Some ''HIT-V3''
      \<and> cache_puts r = [])"

definition is_miss :: "served \<Rightarrow> string \<Rightarrow> response \<Rightarrow> bool" where
  "is_miss r url res =
     (status (resp r) = 200 \<and> body (resp r) = body res
      \<and> headers_get (hdrs (resp r)) ''Access-Control-Allow-Origin'' = Some ''*''
      \<and> headers_get (hdrs (resp r)) ''Cache-Control'' = Some ''public, max-age=2592000, immutable''
      \<and> headers_get (hdrs (resp r)) ''X-Proxy-Cache'' = Some ''MISS''
      \<and> cache_puts r = [(url, resp r)])"

definition is_not_found :: "served \<Rightarrow> bool" where
  "is_not_found r =
     (status (resp r) = 404 \<and> body (resp r) = ''Manga Page Not Found''
      \<and> headers_get (hdrs (resp r)) ''Content-Type'' = Some ''text/plain;charset=UTF-8''
      \<and> cache_puts r = [])"

text \<open>
  The text a signer sends: two lower-case hexadecimal digits for each byte of the tag.
\<close>

definition hex_byte :: "8 word \<Rightarrow> string" where
  "hex_byte b = [digit_char (unat b div 16), digit_char (unat b mod 16)]"

definition to_hex :: "8 word list \<Rightarrow> string" where
  "to_hex bs = concat (map hex_byte bs)"

text \<open>The bytes that \<^verbatim>\<open>verifySignature\<close> decodes from the text of a signature.\<close>

definition sig_bytes :: "string \<Rightarrow> 8 word list" where
  "sig_bytes sg = map (\<lambda>byte. to_uint8 (parseInt byte (Some 16))) (chunks sg)"

subsection \<open>Example platforms\<close>

text \<open>
  Concrete worlds for running the job: the origin answers 200 for the URLs listed in
  \<open>present\<close> and 404 for every other URL, the store holds the checkpoint \<open>st\<close>, and
  \<^verbatim>\<open>JSON.parse\<close> reads that stored text back.
\<close>

definition demo_reply :: "nat \<Rightarrow> origin_reply" where
  "demo_reply st = Reply \<lparr>status = st, hdrs = Map.empty, body = ''img''\<rparr> True"

definition demo_world :: "manga list \<Rightarrow> checkpoint \<Rightarrow> string list \<Rightarrow> (nat \<Rightarrow> int) \<Rightarrow> world" where
  "demo_world mangaList st present clock =
     \<lparr>start_time = 0, now_at = clock, catalog = Fetched True (Array mangaList),
      origin_at = (\<lambda>n url. if url \<in> set present then demo_reply 200 else demo_reply 404),
      JSON_parse = (\<lambda>raw. if raw = JSON_stringify st then Parsed st else SyntaxError)\<rparr>"

definition demo_store :: "checkpoint \<Rightarrow> kv_store" where
  "demo_store st = [''nightly_step'' \<mapsto> JSON_stringify st]"

text \<open>
  A keyed tag of 32 bytes standing for HMAC-SHA-256 in the examples; its first byte is
  \<open>0xab\<close> whatever the key and the data.
\<close>

definition demo_hmac :: "string \<Rightarrow> string \<Rightarrow> 8 word list" where
  "demo_hmac key data = map (\<lambda>j. word_of_nat (171 + j * (length key + length data))) [0 ..< 32]"

text \<open>Chapter 3 of one manga, resumed at page 10; the clock is past the budget at once.\<close>

definition deadline_world :: world where
  "deadline_world = demo_world [\<lparr>name = ''A'', chapters = 3\<rparr>] \<lparr>mIdx = 0, cIdx = 3, pIdx = 10\<rparr>
       (map (\<lambda>page. hd (warm_urls ''A'' 3 page)) [10, 11, 12, 13, 14]) (\<lambda>n. 24001)"

text \<open>The resumed run of the specification: one manga of two chapters, pages 0 to 9.\<close>

definition resume_world :: world where
  "resume_world = demo_world [\<lparr>name = ''A'', chapters = 2\<rparr>] \<lparr>mIdx = 0, cIdx = 2, pIdx = 3\<rparr>
       (map (\<lambda>page. hd (warm_urls ''A'' 2 page)) [0, 1, 2, 3, 4, 5, 6, 7, 8, 9]) (\<lambda>n. 1000 * int n)"

text \<open>A checkpoint that names chapter 2 of a manga that has one chapter.\<close>

definition skip_world :: world where
  "skip_world = demo_world [\<lparr>name = ''A'', chapters = 1\<rparr>, \<lparr>name = ''B'', chapters = 1\<rparr>]
       \<lparr>mIdx = 0, cIdx = 2, pIdx = 3\<rparr> [] (\<lambda>n. 0)"

text \<open>Chapter 1 has pages 0 to 6; chapter 2 lacks page 2.\<close>

definition batch_world :: world where
  "batch_world = demo_world [\<lparr>name = ''A'', chapters = 2\<rparr>] default_state
       (map (\<lambda>page. hd (warm_urls ''A'' 1 page)) [0, 1, 2, 3, 4, 5, 6]
        @ map (\<lambda>page. hd (warm_urls ''A'' 2 page)) [0, 1, 3, 4]) (\<lambda>n. 0)"

text \<open>A page as an origin or the cache holds it, and a signed request for it.\<close>

definition demo_page :: "nat \<Rightarrow> response" where
  "demo_page st = \<lparr>status = st, hdrs = [''content-type'' \<mapsto> ''image/webp''], body = ''img''\<rparr>"

definition demo_env :: platform where
  "demo_env = \<lparr>date_now = 1700000000000, hmac_sha256 = demo_hmac,
      edge_cache = [''https://cdne.megaman-server.ir/564/A/1/HD/0.webp'' \<mapsto> demo_page 500],
      origin_server = (\<lambda>url. NetFail)\<rparr>"

definition demo_request :: request where
  "demo_request = \<lparr>pathname = ''/A/1/0.webp'',
      param_sig = Some (to_hex (demo_hmac SECRET_KEY (''/A/1/0.webp'' @ '':'' @ ''1700000000''))),
      param_t = Some ''1700000000''\<rparr>"

section \<open>Properties\<close>

subsection \<open>Batches\<close>

lemma indexOf_ge: "- 1 \<le> indexOf xs v"
  by (induction xs) (auto simp: Let_def)

lemma indexOf_none: "(indexOf xs v = - 1) = (v \<notin> set xs)"
proof (induction xs)
  case Nil
  show ?case by simp
next
  case (Cons x xs)
  have "- 1 \<le> indexOf xs v" by (rule indexOf_ge)
  with Cons show ?case by (auto simp: Let_def)
qed

lemma indexOf_first:
  "k < length xs \<Longrightarrow> xs ! k = v \<Longrightarrow> (\<forall>j<k. xs ! j \<noteq> v) \<Longrightarrow> indexOf xs v = int k"
proof (induction xs arbitrary: k)
  case Nil
  then show ?case by simp
next
  case (Cons x xs)
  show ?case
  proof (cases k)
    case 0
    with Cons.prems show ?thesis by simp
  next
    case (Suc k')
    from Cons.prems Suc have x: "x \<noteq> v" by auto
    from Cons.prems Suc have "indexOf xs v = int k'"
      by (intro Cons.IH) auto
    with x Suc show ?thesis by (simp add: Let_def)
  qed
qed

lemma batch_pages_eq: "batch_pages p = [p, p + 1, p + 2, p + 3, p + 4]"
  by (simp add: batch_pages_def BATCH_SIZE_def upto.simps)

lemma reduce_batch_all_ok:
  "False \<notin> set results \<Longrightarrow> reduce_batch p results = (p + BATCH_SIZE, False)"
  by (simp add: reduce_batch_def Let_def indexOf_none)

lemma reduce_batch_first_failure:
  assumes "k < length results" "\<not> results ! k" "\<forall>j<k. results ! j"
  shows "reduce_batch p results = (p + int k, True)"
proof -
  have "indexOf results False = int k"
    using assms by (intro indexOf_first) auto
  then show ?thesis by (simp add: reduce_batch_def Let_def)
qed

lemma scan_pages_Suc:
  "scan_pages w (Suc fuel) m i c p s =
     (let r = \<lparr>r_manga = i, r_chapter = c, r_offset = p,
               r_results = run_batch (origin_at w (length (rounds s))) (name m) c p\<rparr>;
          s' = s\<lparr>rounds := rounds s @ [r]\<rparr>
      in if over_budget w (length (rounds s))
         then (Return, s'\<lparr>kv := persist_state (kv s) (halt_checkpoint r)\<rparr>)
         else if False \<in> set (r_results r) then (Next, s')
         else scan_pages w fuel m i c (p + BATCH_SIZE) s')"
  by (auto simp: Let_def halt_checkpoint_def reduce_batch_def indexOf_none split: prod.splits)

subsection \<open>The page loop\<close>

lemma page_run_Nil: "page_run w m i c p n []"
  by (simp add: page_run_def)

lemma page_run_Cons:
  assumes "page_run w m i c (p + BATCH_SIZE) (Suc n) rs"
  shows "page_run w m i c p n
           (\<lparr>r_manga = i, r_chapter = c, r_offset = p,
             r_results = run_batch (origin_at w n) (name m) c p\<rparr> # rs)"
  unfolding page_run_def
proof (intro allI impI)
  fix k
  assume k: "k < length (\<lparr>r_manga = i, r_chapter = c, r_offset = p,
             r_results = run_batch (origin_at w n) (name m) c p\<rparr> # rs)"
  show "(\<lparr>r_manga = i, r_chapter = c, r_offset = p,
             r_results = run_batch (origin_at w n) (name m) c p\<rparr> # rs) ! k =
        \<lparr>r_manga = i, r_chapter = c, r_offset = p + BATCH_SIZE * int k,
         r_results = run_batch (origin_at w (n + k)) (name m) c (p + BATCH_SIZE * int k)\<rparr>"
  proof (cases k)
    case 0
    then show ?thesis by simp
  next
    case (Suc j)
    with k have "j < length rs" by simp
    with assms have "rs ! j = \<lparr>r_manga = i, r_chapter = c, r_offset = p + BATCH_SIZE + BATCH_SIZE * int j,
         r_results = run_batch (origin_at w (Suc n + j)) (name m) c (p + BATCH_SIZE + BATCH_SIZE * int j)\<rparr>"
      by (simp add: page_run_def)
    with Suc show ?thesis by (simp add: algebra_simps)
  qed
qed

lemma scan_pages_run:
  "scan_pages w fuel m i c p s = (fl, s') \<Longrightarrow>
   \<exists>rs. rounds s' = rounds s @ rs
      \<and> page_run w m i c p (length (rounds s)) rs
      \<and> state s' = state s
      \<and> fl \<noteq> Throw
      \<and> (\<forall>k. Suc k < length rs \<longrightarrow>
            \<not> over_budget w (length (rounds s) + k) \<and> False \<notin> set (r_results (rs ! k)))
      \<and> (fl = Return \<longrightarrow> rs \<noteq> [] \<and> over_budget w (length (rounds s) + length rs - 1)
            \<and> kv s' = persist_state (kv s) (halt_checkpoint (last rs)))
      \<and> (fl = Next \<longrightarrow> rs \<noteq> [] \<and> \<not> over_budget w (length (rounds s) + length rs - 1)
            \<and> False \<in> set (r_results (last rs)) \<and> kv s' = kv s)
      \<and> (fl = OutOfFuel \<longrightarrow> length rs = fuel \<and> kv s' = kv s
            \<and> (rs \<noteq> [] \<longrightarrow> \<not> over_budget w (length (rounds s) + length rs - 1)
                  \<and> False \<notin> set (r_results (last rs))))"
proof (induction fuel arbitrary: p s)
  case 0
  then have "fl = OutOfFuel" "s' = s" by auto
  then show ?case by (intro exI [of _ "[]"]) (simp add: page_run_Nil)
next
  case (Suc fuel)
  define r where "r = \<lparr>r_manga = i, r_chapter = c, r_offset = p,
               r_results = run_batch (origin_at w (length (rounds s))) (name m) c p\<rparr>"
  define s1 where "s1 = s\<lparr>rounds := rounds s @ [r]\<rparr>"
  have step: "scan_pages w (Suc fuel) m i c p s =
      (if over_budget w (length (rounds s))
         then (Return, s1\<lparr>kv := persist_state (kv s) (halt_checkpoint r)\<rparr>)
         else if False \<in> set (r_results r) then (Next, s1)
         else scan_pages w fuel m i c (p + BATCH_SIZE) s1)"
    unfolding scan_pages_Suc r_def s1_def Let_def ..
  have run1: "page_run w m i c p (length (rounds s)) [r]"
    unfolding r_def by (rule page_run_Cons) (rule page_run_Nil)
  show ?case
  proof (cases "over_budget w (length (rounds s))")
    case True
    with step Suc.prems have "fl = Return" "s' = s1\<lparr>kv := persist_state (kv s) (halt_checkpoint r)\<rparr>"
      by auto
    with True run1 show ?thesis
      by (intro exI [of _ "[r]"]) (simp add: s1_def)
  next
    case nb: False
    show ?thesis
    proof (cases "False \<in> set (r_results r)")
      case True
      with nb step Suc.prems have "fl = Next" "s' = s1" by auto
      with True nb run1 show ?thesis
        by (intro exI [of _ "[r]"]) (simp add: s1_def)
    next
      case ok: False
      with nb step Suc.prems have rec: "scan_pages w fuel m i c (p + BATCH_SIZE) s1 = (fl, s')"
        by simp
      from Suc.IH [OF rec] obtain rs where
        a: "rounds s' = rounds s1 @ rs"
        and b: "page_run w m i c (p + BATCH_SIZE) (length (rounds s1)) rs"
        and c: "state s' = state s1" and d: "fl \<noteq> Throw"
        and e: "\<forall>k. Suc k < length rs \<longrightarrow>
            \<not> over_budget w (length (rounds s1) + k) \<and> False \<notin> set (r_results (rs ! k))"
        and f: "fl = Return \<longrightarrow> rs \<noteq> [] \<and> over_budget w (length (rounds s1) + length rs - 1)
            \<and> kv s' = persist_state (kv s1) (halt_checkpoint (last rs))"
        and g: "fl = Next \<longrightarrow> rs \<noteq> [] \<and> \<not> over_budget w (length (rounds s1) + length rs - 1)
            \<and> False \<in> set (r_results (last rs)) \<and> kv s' = kv s1"
        and h: "fl = OutOfFuel \<longrightarrow> length rs = fuel \<and> kv s' = kv s1
            \<and> (rs \<noteq> [] \<longrightarrow> \<not> over_budget w (length (rounds s1) + length rs - 1)
                  \<and> False \<notin> set (r_results (last rs)))"
        by blast
      have len1: "length (rounds s1) = Suc (length (rounds s))"
        by (simp add: s1_def)
      have A: "rounds s' = rounds s @ (r # rs)"
        using a by (simp add: s1_def)
      have B: "page_run w m i c p (length (rounds s)) (r # rs)"
        unfolding r_def using b [unfolded len1] by (rule page_run_Cons)
      have C: "state s' = state s"
        using c by (simp add: s1_def)
      have E: "\<forall>k. Suc k < length (r # rs) \<longrightarrow>
            \<not> over_budget w (length (rounds s) + k) \<and> False \<notin> set (r_results ((r # rs) ! k))"
      proof (intro allI impI)
        fix k assume k: "Suc k < length (r # rs)"
        show "\<not> over_budget w (length (rounds s) + k) \<and> False \<notin> set (r_results ((r # rs) ! k))"
        proof (cases k)
          case 0
          with nb ok show ?thesis by simp
        next
          case (Suc j)
          with k e len1 show ?thesis by simp
        qed
      qed
      have F: "fl = Return \<longrightarrow> (r # rs) \<noteq> [] \<and> over_budget w (length (rounds s) + length (r # rs) - 1)
            \<and> kv s' = persist_state (kv s) (halt_checkpoint (last (r # rs)))"
        using f len1 by (auto simp: s1_def)
      have G: "fl = Next \<longrightarrow> (r # rs) \<noteq> [] \<and> \<not> over_budget w (length (rounds s) + length (r # rs) - 1)
            \<and> False \<in> set (r_results (last (r # rs))) \<and> kv s' = kv s"
        using g len1 by (auto simp: s1_def)
      have H: "fl = OutOfFuel \<longrightarrow> length (r # rs) = Suc fuel \<and> kv s' = kv s
            \<and> ((r # rs) \<noteq> [] \<longrightarrow> \<not> over_budget w (length (rounds s) + length (r # rs) - 1)
                  \<and> False \<notin> set (r_results (last (r # rs))))"
        using h len1 nb ok by (auto simp: s1_def)
      from A B C d E F G H show ?thesis
        by (intro exI [of _ "r # rs"]) blast
    qed
  qed
qed

lemma segment_empty: "fl \<noteq> Return \<Longrightarrow> segment w s fl s []"
  by (simp add: segment_def)

lemma page_run_follows:
  assumes run: "page_run w m i c p n rs"
    and ok: "\<forall>k. Suc k < length rs \<longrightarrow> False \<notin> set (r_results (rs ! k))"
  shows "successively follows rs"
  unfolding successively_conv_nth
proof (intro allI impI)
  fix k assume k: "Suc k < length rs"
  then have k': "k < length rs" by simp
  from run k have a: "rs ! Suc k = \<lparr>r_manga = i, r_chapter = c, r_offset = p + BATCH_SIZE * int (Suc k),
         r_results = run_batch (origin_at w (n + Suc k)) (name m) c (p + BATCH_SIZE * int (Suc k))\<rparr>"
    unfolding page_run_def by blast
  from run k' have b: "rs ! k = \<lparr>r_manga = i, r_chapter = c, r_offset = p + BATCH_SIZE * int k,
         r_results = run_batch (origin_at w (n + k)) (name m) c (p + BATCH_SIZE * int k)\<rparr>"
    unfolding page_run_def by blast
  from ok k have c: "False \<notin> set (r_results (rs ! k))" by blast
  have "r_manga (rs ! Suc k) = r_manga (rs ! k)" "r_chapter (rs ! Suc k) = r_chapter (rs ! k)"
    "r_offset (rs ! Suc k) = r_offset (rs ! k) + BATCH_SIZE"
    unfolding a b by (simp_all add: algebra_simps)
  with c show "follows (rs ! k) (rs ! Suc k)"
    by (simp add: follows_def)
qed

lemma scan_pages_segment:
  assumes "scan_pages w fuel m i c p s = (fl, s')"
  shows "\<exists>rs. segment w s fl s' rs \<and> page_run w m i c p (length (rounds s)) rs
           \<and> state s' = state s \<and> fl \<noteq> Throw \<and> (0 < fuel \<longrightarrow> rs \<noteq> [])"
proof -
  from scan_pages_run [OF assms] obtain rs where
    a: "rounds s' = rounds s @ rs"
    and b: "page_run w m i c p (length (rounds s)) rs"
    and c: "state s' = state s" and d: "fl \<noteq> Throw"
    and e: "\<forall>k. Suc k < length rs \<longrightarrow>
            \<not> over_budget w (length (rounds s) + k) \<and> False \<notin> set (r_results (rs ! k))"
    and f: "fl = Return \<longrightarrow> rs \<noteq> [] \<and> over_budget w (length (rounds s) + length rs - 1)
            \<and> kv s' = persist_state (kv s) (halt_checkpoint (last rs))"
    and g: "fl = Next \<longrightarrow> rs \<noteq> [] \<and> \<not> over_budget w (length (rounds s) + length rs - 1)
            \<and> False \<in> set (r_results (last rs)) \<and> kv s' = kv s"
    and h: "fl = OutOfFuel \<longrightarrow> length rs = fuel \<and> kv s' = kv s
            \<and> (rs \<noteq> [] \<longrightarrow> \<not> over_budget w (length (rounds s) + length rs - 1)
                  \<and> False \<notin> set (r_results (last rs)))"
    by blast
  have chain: "successively follows rs"
    using b e by (blast intro: page_run_follows)
  have budget: "\<forall>k < length rs. over_budget w (length (rounds s) + k) = (fl = Return \<and> Suc k = length rs)"
  proof (intro allI impI)
    fix k assume k: "k < length rs"
    show "over_budget w (length (rounds s) + k) = (fl = Return \<and> Suc k = length rs)"
    proof (cases "Suc k = length rs")
      case True
      then have idx: "length (rounds s) + length rs - 1 = length (rounds s) + k" by simp
      from k have ne: "rs \<noteq> []" by auto
      show ?thesis
        using True f g h d ne unfolding idx by (cases fl) auto
    next
      case False
      with k have "Suc k < length rs" by simp
      with e False show ?thesis by blast
    qed
  qed
  have nonempty: "0 < fuel \<longrightarrow> rs \<noteq> []"
    using f g h d by (cases fl) auto
  have kvs: "fl \<noteq> Return \<longrightarrow> kv s' = kv s"
    using g h d by (cases fl) auto
  have "segment w s fl s' rs"
    unfolding segment_def using a c chain budget f kvs g d by simp
  with b c d nonempty show ?thesis by blast
qed

lemma segment_seq:
  assumes s1: "segment w s Next s1 rs1"
    and eq: "rounds s1' = rounds s1" "kv s1' = kv s1" "mIdx (state s1') = mIdx (state s1)"
    and s2: "segment w s1' fl s' rs2"
    and link: "rs1 \<noteq> [] \<Longrightarrow> rs2 \<noteq> [] \<Longrightarrow> follows (last rs1) (hd rs2)"
  shows "segment w s fl s' (rs1 @ rs2)"
proof -
  from s1 have a1: "rounds s1 = rounds s @ rs1" and m1: "mIdx (state s1) = mIdx (state s)"
    and c1: "successively follows rs1"
    and b1: "\<forall>k < length rs1. \<not> over_budget w (length (rounds s) + k)"
    and k1: "kv s1 = kv s"
    and l1: "rs1 \<noteq> [] \<longrightarrow> False \<in> set (r_results (last rs1))"
    by (simp_all add: segment_def)
  from s2 eq have a2: "rounds s' = rounds s1 @ rs2" and m2: "mIdx (state s') = mIdx (state s1)"
    and c2: "successively follows rs2"
    and b2: "\<forall>k < length rs2. over_budget w (length (rounds s1) + k) = (fl = Return \<and> Suc k = length rs2)"
    and r2: "fl = Return \<longrightarrow> rs2 \<noteq> [] \<and> kv s' = persist_state (kv s1) (halt_checkpoint (last rs2))"
    and k2: "fl \<noteq> Return \<longrightarrow> kv s' = kv s1"
    and l2: "fl = Next \<longrightarrow> rs2 \<noteq> [] \<longrightarrow> False \<in> set (r_results (last rs2))"
    by (simp_all add: segment_def)
  have A: "rounds s' = rounds s @ (rs1 @ rs2)" using a1 a2 by simp
  have M: "mIdx (state s') = mIdx (state s)" using m1 m2 by simp
  have C: "successively follows (rs1 @ rs2)"
    using c1 c2 link by (auto simp: successively_append_iff)
  have B: "\<forall>k < length (rs1 @ rs2).
        over_budget w (length (rounds s) + k) = (fl = Return \<and> Suc k = length (rs1 @ rs2))"
  proof (intro allI impI)
    fix k assume k: "k < length (rs1 @ rs2)"
    show "over_budget w (length (rounds s) + k) = (fl = Return \<and> Suc k = length (rs1 @ rs2))"
    proof (cases "k < length rs1")
      case True
      with b1 have nb: "\<not> over_budget w (length (rounds s) + k)" by blast
      have "\<not> (fl = Return \<and> Suc k = length (rs1 @ rs2))"
      proof
        assume h: "fl = Return \<and> Suc k = length (rs1 @ rs2)"
        with r2 have "0 < length rs2" by simp
        with h True show False by simp
      qed
      with nb show ?thesis by blast
    next
      case False
      define j where "j = k - length rs1"
      from False k have j: "j < length rs2" "k = length rs1 + j" by (auto simp: j_def)
      from b2 j have "over_budget w (length (rounds s1) + j) = (fl = Return \<and> Suc j = length rs2)"
        by blast
      then show ?thesis using j a1 by (simp add: add.assoc)
    qed
  qed
  have R: "fl = Return \<longrightarrow> rs1 @ rs2 \<noteq> [] \<and> kv s' = persist_state (kv s) (halt_checkpoint (last (rs1 @ rs2)))"
    using r2 k1 by auto
  have K: "fl \<noteq> Return \<longrightarrow> kv s' = kv s" using k2 k1 by simp
  have L: "fl = Next \<longrightarrow> rs1 @ rs2 \<noteq> [] \<longrightarrow> False \<in> set (r_results (last (rs1 @ rs2)))"
    using l1 l2 by (cases "rs2 = []") auto
  show ?thesis unfolding segment_def using A M C B R K L by blast
qed

subsection \<open>The chapter loop\<close>

lemma in_manga_append:
  assumes "in_manga w m i n rs1" "in_manga w m i (n + length rs1) rs2"
  shows "in_manga w m i n (rs1 @ rs2)"
  unfolding in_manga_def
proof (intro allI impI)
  fix k assume k: "k < length (rs1 @ rs2)"
  show "r_manga ((rs1 @ rs2) ! k) = i \<and> r_chapter ((rs1 @ rs2) ! k) \<le> chapters m
        \<and> r_results ((rs1 @ rs2) ! k) =
            run_batch (origin_at w (n + k)) (name m) (r_chapter ((rs1 @ rs2) ! k)) (r_offset ((rs1 @ rs2) ! k))"
  proof (cases "k < length rs1")
    case True
    with assms(1) show ?thesis by (simp add: in_manga_def nth_append)
  next
    case False
    define j where "j = k - length rs1"
    from False k have j: "j < length rs2" "k = length rs1 + j" by (auto simp: j_def)
    from assms(2) j(1) have "r_manga (rs2 ! j) = i \<and> r_chapter (rs2 ! j) \<le> chapters m
        \<and> r_results (rs2 ! j) =
            run_batch (origin_at w (n + length rs1 + j)) (name m) (r_chapter (rs2 ! j)) (r_offset (rs2 ! j))"
      unfolding in_manga_def by blast
    then show ?thesis using j by (simp add: nth_append add.assoc)
  qed
qed

lemma page_run_nth:
  "page_run w m i c p n rs \<Longrightarrow> k < length rs \<Longrightarrow>
   r_manga (rs ! k) = i \<and> r_chapter (rs ! k) = c \<and> r_offset (rs ! k) = p + BATCH_SIZE * int k
   \<and> r_results (rs ! k) = run_batch (origin_at w (n + k)) (name m) c (p + BATCH_SIZE * int k)"
  by (simp add: page_run_def)

lemma page_run_in_manga:
  "page_run w m i c p n rs \<Longrightarrow> c \<le> chapters m \<Longrightarrow> in_manga w m i n rs"
  by (simp add: in_manga_def page_run_nth)

lemma page_run_set:
  assumes "page_run w m i c p n rs" "r \<in> set rs"
  shows "r_manga r = i \<and> r_chapter r = c \<and> p \<le> r_offset r"
proof -
  from assms(2) obtain k where k: "k < length rs" "r = rs ! k"
    by (auto simp: in_set_conv_nth)
  from page_run_nth [OF assms(1) k(1)] k(2) show ?thesis
    by (simp add: BATCH_SIZE_def)
qed

lemma page_run_hd:
  assumes "page_run w m i c p n rs" "rs \<noteq> []"
  shows "r_manga (hd rs) = i \<and> r_chapter (hd rs) = c \<and> r_offset (hd rs) = p"
proof -
  from assms(2) have "0 < length rs" by simp
  from page_run_nth [OF assms(1) this] assms(2) show ?thesis
    by (simp add: hd_conv_nth)
qed

lemma page_run_last:
  assumes "page_run w m i c p n rs" "rs \<noteq> []"
  shows "r_manga (last rs) = i \<and> r_chapter (last rs) = c"
  using page_run_set [OF assms(1), of "last rs"] assms(2) by simp

lemma scan_chapters_segment:
  "scan_chapters w fuel m i c s = (fl, s') \<Longrightarrow>
   \<exists>rs. segment w s fl s' rs
      \<and> cIdx (state s') = cIdx (state s)
      \<and> fl \<noteq> Throw
      \<and> in_manga w m i (length (rounds s)) rs
      \<and> (\<forall>r \<in> set rs. c \<le> r_chapter r
            \<and> (r_chapter r = c \<longrightarrow>
                 (if i = mIdx (state s) \<and> c = cIdx (state s) then pIdx (state s) else 0) \<le> r_offset r))
      \<and> (rs \<noteq> [] \<longrightarrow> r_chapter (hd rs) = c
            \<and> r_offset (hd rs) = (if i = mIdx (state s) \<and> c = cIdx (state s) then pIdx (state s) else 0))
      \<and> (0 < fuel \<and> c \<le> chapters m \<longrightarrow> rs \<noteq> [])"
proof (induction w fuel m i c s arbitrary: fl s' rule: scan_chapters.induct)
  case (1 w fuel m i c s)
  define p0 where "p0 = (if i = mIdx (state s) \<and> c = cIdx (state s) then pIdx (state s) else 0)"
  show ?case
  proof (cases "c \<le> chapters m")
    case False
    with "1.prems" have "fl = Next" "s' = s"
      by (simp_all add: scan_chapters.simps [of w fuel m i c s])
    with False show ?thesis
      by (intro exI [of _ "[]"]) (simp add: segment_empty in_manga_def)
  next
    case inside: True
    obtain fl1 s1 where pages: "scan_pages w fuel m i c p0 s = (fl1, s1)"
      by (cases "scan_pages w fuel m i c p0 s")
    from scan_pages_segment [OF pages] obtain rs1 where
      seg1: "segment w s fl1 s1 rs1"
      and run1: "page_run w m i c p0 (length (rounds s)) rs1"
      and st1: "state s1 = state s" and nt1: "fl1 \<noteq> Throw"
      and ne1: "0 < fuel \<longrightarrow> rs1 \<noteq> []"
      by blast
    have im1: "in_manga w m i (length (rounds s)) rs1"
      using run1 inside by (rule page_run_in_manga)
    have bd1: "\<forall>r \<in> set rs1. r_manga r = i \<and> r_chapter r = c \<and> p0 \<le> r_offset r"
      using page_run_set [OF run1] by blast
    have hd1: "rs1 \<noteq> [] \<longrightarrow> r_chapter (hd rs1) = c \<and> r_offset (hd rs1) = p0"
      using page_run_hd [OF run1] by blast
    show ?thesis
    proof (cases "fl1 = Next")
      case False
      with inside pages "1.prems" have "fl = fl1" "s' = s1"
        by (cases fl1; simp add: scan_chapters.simps [of w fuel m i c s] p0_def [symmetric])+
      with seg1 st1 nt1 im1 bd1 hd1 ne1 inside show ?thesis
        unfolding p0_def [symmetric] by (intro exI [of _ rs1]) simp
    next
      case nx: True
      define s1' where "s1' = s1\<lparr>state := (state s1)\<lparr>pIdx := 0\<rparr>\<rparr>"
      from inside pages nx "1.prems" have rec: "scan_chapters w fuel m i (c + 1) s1' = (fl, s')"
        by (simp add: scan_chapters.simps [of w fuel m i c s] p0_def [symmetric] s1'_def)
      have "\<exists>rs. segment w s1' fl s' rs
          \<and> cIdx (state s') = cIdx (state s1')
          \<and> fl \<noteq> Throw
          \<and> in_manga w m i (length (rounds s1')) rs
          \<and> (\<forall>r \<in> set rs. c + 1 \<le> r_chapter r
            \<and> (r_chapter r = c + 1 \<longrightarrow>
                 (if i = mIdx (state s1') \<and> c + 1 = cIdx (state s1') then pIdx (state s1') else 0) \<le> r_offset r))
          \<and> (rs \<noteq> [] \<longrightarrow> r_chapter (hd rs) = c + 1
            \<and> r_offset (hd rs) = (if i = mIdx (state s1') \<and> c + 1 = cIdx (state s1') then pIdx (state s1') else 0))
          \<and> (0 < fuel \<and> c + 1 \<le> chapters m \<longrightarrow> rs \<noteq> [])"
        using "1.IH" [OF inside p0_def pages [symmetric] nx, folded s1'_def, OF rec] .
      then obtain rs2 where
        seg2: "segment w s1' fl s' rs2"
        and ci2: "cIdx (state s') = cIdx (state s1')" and nt2: "fl \<noteq> Throw"
        and im2: "in_manga w m i (length (rounds s1')) rs2"
        and bd2': "\<forall>r \<in> set rs2. c + 1 \<le> r_chapter r
            \<and> (r_chapter r = c + 1 \<longrightarrow>
                 (if i = mIdx (state s1') \<and> c + 1 = cIdx (state s1') then pIdx (state s1') else 0) \<le> r_offset r)"
        and hd2': "rs2 \<noteq> [] \<longrightarrow> r_chapter (hd rs2) = c + 1
            \<and> r_offset (hd rs2) = (if i = mIdx (state s1') \<and> c + 1 = cIdx (state s1') then pIdx (state s1') else 0)"
        by blast
      have p1': "pIdx (state s1') = 0" by (simp add: s1'_def)
      have bd2: "\<forall>r \<in> set rs2. c + 1 \<le> r_chapter r"
        using bd2' by blast
      have hd2: "rs2 \<noteq> [] \<longrightarrow> r_chapter (hd rs2) = c + 1 \<and> r_offset (hd rs2) = 0"
        using hd2' p1' by simp
      from seg1 have r1: "rounds s1 = rounds s @ rs1" by (simp add: segment_def)
      have last1: "rs1 \<noteq> [] \<Longrightarrow> False \<in> set (r_results (last rs1))"
        using seg1 nx by (simp add: segment_def)
      have link: "follows (last rs1) (hd rs2)" if "rs1 \<noteq> []" "rs2 \<noteq> []"
      proof -
        from that(2) have "0 < length rs2" by simp
        with im2 have "r_manga (rs2 ! 0) = i" unfolding in_manga_def by blast
        with that(2) have "r_manga (hd rs2) = i" by (simp add: hd_conv_nth)
        with hd2 that page_run_last [OF run1 that(1)] last1 [OF that(1)]
        show ?thesis by (simp add: follows_def)
      qed
      have seg: "segment w s fl s' (rs1 @ rs2)"
        using seg1 [unfolded nx] _ _ _ seg2 link
        by (rule segment_seq) (simp_all add: s1'_def)
      have im: "in_manga w m i (length (rounds s)) (rs1 @ rs2)"
        using im1 im2 by (intro in_manga_append) (simp_all add: s1'_def r1)
      have ci: "cIdx (state s') = cIdx (state s)"
        using ci2 st1 by (simp add: s1'_def)
      have bd: "\<forall>r \<in> set (rs1 @ rs2). c \<le> r_chapter r \<and> (r_chapter r = c \<longrightarrow> p0 \<le> r_offset r)"
        using bd1 bd2 by fastforce
      have hd: "rs1 @ rs2 \<noteq> [] \<longrightarrow> r_chapter (hd (rs1 @ rs2)) = c \<and> r_offset (hd (rs1 @ rs2)) = p0"
        using hd1 ne1 hd2 nx pages by (cases fuel) (auto simp: hd_append)
      have ne: "0 < fuel \<and> c \<le> chapters m \<longrightarrow> rs1 @ rs2 \<noteq> []"
        using ne1 by simp
      from seg ci nt2 im bd hd ne show ?thesis
        unfolding p0_def [symmetric] by (intro exI [of _ "rs1 @ rs2"]) simp
    qed
  qed
qed

subsection \<open>The catalog loop\<close>

lemma in_manga_in_catalog:
  "in_manga w (mangaList ! nat i) i n rs \<Longrightarrow> 0 \<le> i \<Longrightarrow> i < int (length mangaList) \<Longrightarrow>
   in_catalog w mangaList n rs"
  by (simp add: in_manga_def in_catalog_def)

lemma in_catalog_append:
  assumes "in_catalog w mangaList n rs1" "in_catalog w mangaList (n + length rs1) rs2"
  shows "in_catalog w mangaList n (rs1 @ rs2)"
  unfolding in_catalog_def
proof (intro allI impI)
  fix k assume k: "k < length (rs1 @ rs2)"
  let ?r = "(rs1 @ rs2) ! k"
  show "0 \<le> r_manga ?r \<and> r_manga ?r < int (length mangaList)
        \<and> r_chapter ?r \<le> chapters (mangaList ! nat (r_manga ?r))
        \<and> r_results ?r =
            run_batch (origin_at w (n + k)) (name (mangaList ! nat (r_manga ?r)))
              (r_chapter ?r) (r_offset ?r)"
  proof (cases "k < length rs1")
    case True
    with assms(1) show ?thesis by (simp add: in_catalog_def nth_append)
  next
    case False
    define j where "j = k - length rs1"
    from False k have j: "j < length rs2" "k = length rs1 + j" by (auto simp: j_def)
    from assms(2) j(1) have "0 \<le> r_manga (rs2 ! j) \<and> r_manga (rs2 ! j) < int (length mangaList)
        \<and> r_chapter (rs2 ! j) \<le> chapters (mangaList ! nat (r_manga (rs2 ! j)))
        \<and> r_results (rs2 ! j) =
            run_batch (origin_at w (n + length rs1 + j)) (name (mangaList ! nat (r_manga (rs2 ! j))))
              (r_chapter (rs2 ! j)) (r_offset (rs2 ! j))"
      unfolding in_catalog_def by blast
    then show ?thesis using j by (simp add: nth_append add.assoc)
  qed
qed

lemma in_manga_set: "in_manga w m i n rs \<Longrightarrow> r \<in> set rs \<Longrightarrow> r_manga r = i"
  by (auto simp: in_manga_def in_set_conv_nth)

lemma scan_mangas_segment:
  "scan_mangas w fuel mangaList i s = (fl, s') \<Longrightarrow> mIdx (state s) \<le> i \<Longrightarrow>
   \<exists>rs. segment w s fl s' rs
      \<and> (fl = Throw \<longrightarrow> i < 0 \<and> rs = [])
      \<and> in_catalog w mangaList (length (rounds s)) rs
      \<and> (\<forall>r \<in> set rs. i \<le> r_manga r
            \<and> (r_manga r = i \<longrightarrow> (if i = mIdx (state s) then cIdx (state s) else 1) \<le> r_chapter r
                 \<and> (r_chapter r = (if i = mIdx (state s) then cIdx (state s) else 1) \<longrightarrow>
                      (if i = mIdx (state s) then pIdx (state s) else 0) \<le> r_offset r)))
      \<and> (rs \<noteq> [] \<longrightarrow>
            r_manga (hd rs) = i \<and> r_chapter (hd rs) = (if i = mIdx (state s) then cIdx (state s) else 1)
              \<and> r_offset (hd rs) = (if i = mIdx (state s) then pIdx (state s) else 0)
            \<or> i < r_manga (hd rs) \<and> r_chapter (hd rs) = 1 \<and> r_offset (hd rs) = 0)
      \<and> (0 < fuel \<and> 0 \<le> i \<and> i < int (length mangaList)
            \<and> (if i = mIdx (state s) then cIdx (state s) else 1) \<le> chapters (mangaList ! nat i) \<longrightarrow>
          rs \<noteq> [] \<and> r_manga (hd rs) = i
            \<and> r_chapter (hd rs) = (if i = mIdx (state s) then cIdx (state s) else 1)
            \<and> r_offset (hd rs) = (if i = mIdx (state s) then pIdx (state s) else 0))"
proof (induction w fuel mangaList i s arbitrary: fl s' rule: scan_mangas.induct)
  case (1 w fuel mangaList i s)
  define c0 where "c0 = (if i = mIdx (state s) then cIdx (state s) else 1)"
  define p0 where "p0 = (if i = mIdx (state s) then pIdx (state s) else 0)"
  have p0_alt: "(if i = mIdx (state s) \<and> c0 = cIdx (state s) then pIdx (state s) else 0) = p0"
    by (simp add: c0_def p0_def)
  show ?case
  proof (cases "i < int (length mangaList)")
    case False
    with "1.prems" have "fl = Next" "s' = s"
      by (simp_all add: scan_mangas.simps [of w fuel mangaList i s])
    with False show ?thesis
      by (intro exI [of _ "[]"]) (simp add: segment_empty in_catalog_def)
  next
    case inside: True
    show ?thesis
    proof (cases "i < 0")
      case True
      with inside "1.prems" have "fl = Throw" "s' = s"
        by (simp_all add: scan_mangas.simps [of w fuel mangaList i s])
      with True show ?thesis
        by (intro exI [of _ "[]"]) (simp add: segment_empty in_catalog_def)
    next
      case nonneg: False
      define m where "m = mangaList ! nat i"
      obtain fl1 s1 where chaps: "scan_chapters w fuel m i c0 s = (fl1, s1)"
        by (cases "scan_chapters w fuel m i c0 s")
      from scan_chapters_segment [OF chaps] obtain rs1 where
        seg1: "segment w s fl1 s1 rs1"
        and nt1: "fl1 \<noteq> Throw"
        and im1: "in_manga w m i (length (rounds s)) rs1"
        and bd1: "\<forall>r \<in> set rs1. c0 \<le> r_chapter r \<and> (r_chapter r = c0 \<longrightarrow> p0 \<le> r_offset r)"
        and hd1: "rs1 \<noteq> [] \<longrightarrow> r_chapter (hd rs1) = c0 \<and> r_offset (hd rs1) = p0"
        and ne1: "0 < fuel \<and> c0 \<le> chapters m \<longrightarrow> rs1 \<noteq> []"
        unfolding p0_alt by blast
      have mg1: "\<forall>r \<in> set rs1. r_manga r = i"
        using in_manga_set [OF im1] by blast
      have hm1: "rs1 \<noteq> [] \<longrightarrow> r_manga (hd rs1) = i"
        using mg1 by simp
      have ic1: "in_catalog w mangaList (length (rounds s)) rs1"
        using im1 nonneg inside unfolding m_def by (intro in_manga_in_catalog) simp_all
      show ?thesis
      proof (cases "fl1 = Next")
        case False
        with inside nonneg chaps "1.prems" have "fl = fl1" "s' = s1"
          by (cases fl1; simp add: scan_mangas.simps [of w fuel mangaList i s]
                c0_def [symmetric] m_def [symmetric])+
        with seg1 nt1 ic1 mg1 bd1 hd1 hm1 ne1 show ?thesis
          unfolding c0_def [symmetric] p0_def [symmetric] m_def [symmetric]
          by (intro exI [of _ rs1]) simp
      next
        case nx: True
        define s1' where "s1' = s1\<lparr>state := (state s1)\<lparr>cIdx := 1\<rparr>\<rparr>"
        from inside nonneg chaps nx "1.prems" have rec: "scan_mangas w fuel mangaList (i + 1) s1' = (fl, s')"
          by (simp add: scan_mangas.simps [of w fuel mangaList i s]
                c0_def [symmetric] m_def [symmetric] s1'_def)
        from seg1 have mi1: "mIdx (state s1) = mIdx (state s)" and r1: "rounds s1 = rounds s @ rs1"
          by (simp_all add: segment_def)
        have later: "mIdx (state s1') < i + 1"
          using mi1 "1.prems"(2) by (simp add: s1'_def)
        then have le: "mIdx (state s1') \<le> i + 1" and neq: "i + 1 \<noteq> mIdx (state s1')" by simp_all
        have "\<exists>rs. segment w s1' fl s' rs
            \<and> (fl = Throw \<longrightarrow> i + 1 < 0 \<and> rs = [])
            \<and> in_catalog w mangaList (length (rounds s1')) rs
            \<and> (\<forall>r \<in> set rs. i + 1 \<le> r_manga r
                \<and> (r_manga r = i + 1 \<longrightarrow> (if i + 1 = mIdx (state s1') then cIdx (state s1') else 1) \<le> r_chapter r
                 \<and> (r_chapter r = (if i + 1 = mIdx (state s1') then cIdx (state s1') else 1) \<longrightarrow>
                      (if i + 1 = mIdx (state s1') then pIdx (state s1') else 0) \<le> r_offset r)))
            \<and> (rs \<noteq> [] \<longrightarrow>
                r_manga (hd rs) = i + 1 \<and> r_chapter (hd rs) = (if i + 1 = mIdx (state s1') then cIdx (state s1') else 1)
                  \<and> r_offset (hd rs) = (if i + 1 = mIdx (state s1') then pIdx (state s1') else 0)
                \<or> i + 1 < r_manga (hd rs) \<and> r_chapter (hd rs) = 1 \<and> r_offset (hd rs) = 0)
            \<and> (0 < fuel \<and> 0 \<le> i + 1 \<and> i + 1 < int (length mangaList)
                \<and> (if i + 1 = mIdx (state s1') then cIdx (state s1') else 1) \<le> chapters (mangaList ! nat (i + 1)) \<longrightarrow>
              rs \<noteq> [] \<and> r_manga (hd rs) = i + 1
                \<and> r_chapter (hd rs) = (if i + 1 = mIdx (state s1') then cIdx (state s1') else 1)
                \<and> r_offset (hd rs) = (if i + 1 = mIdx (state s1') then pIdx (state s1') else 0))"
          using "1.IH" [OF inside nonneg m_def c0_def chaps [symmetric] nx, folded s1'_def, OF rec le] .
        then obtain rs2 where
          seg2: "segment w s1' fl s' rs2"
          and th2: "fl = Throw \<longrightarrow> i + 1 < 0 \<and> rs2 = []"
          and ic2: "in_catalog w mangaList (length (rounds s1')) rs2"
          and bd2': "\<forall>r \<in> set rs2. i + 1 \<le> r_manga r
                \<and> (r_manga r = i + 1 \<longrightarrow> (if i + 1 = mIdx (state s1') then cIdx (state s1') else 1) \<le> r_chapter r
                 \<and> (r_chapter r = (if i + 1 = mIdx (state s1') then cIdx (state s1') else 1) \<longrightarrow>
                      (if i + 1 = mIdx (state s1') then pIdx (state s1') else 0) \<le> r_offset r))"
          and hd2': "rs2 \<noteq> [] \<longrightarrow>
                r_manga (hd rs2) = i + 1 \<and> r_chapter (hd rs2) = (if i + 1 = mIdx (state s1') then cIdx (state s1') else 1)
                  \<and> r_offset (hd rs2) = (if i + 1 = mIdx (state s1') then pIdx (state s1') else 0)
                \<or> i + 1 < r_manga (hd rs2) \<and> r_chapter (hd rs2) = 1 \<and> r_offset (hd rs2) = 0"
          by blast
        have bd2: "\<forall>r \<in> set rs2. i + 1 \<le> r_manga r"
          using bd2' by blast
        have hd2: "rs2 \<noteq> [] \<longrightarrow> i < r_manga (hd rs2) \<and> r_chapter (hd rs2) = 1 \<and> r_offset (hd rs2) = 0"
          using hd2' neq by auto
        have nothrow: "fl \<noteq> Throw"
          using th2 nonneg by auto
        have last1: "rs1 \<noteq> [] \<Longrightarrow> False \<in> set (r_results (last rs1))"
          using seg1 nx by (simp add: segment_def)
        have link: "follows (last rs1) (hd rs2)" if "rs1 \<noteq> []" "rs2 \<noteq> []"
        proof -
          from that(1) mg1 have "r_manga (last rs1) = i" by simp
          with hd2 that last1 [OF that(1)] show ?thesis by (simp add: follows_def)
        qed
        have seg: "segment w s fl s' (rs1 @ rs2)"
          using seg1 [unfolded nx] _ _ _ seg2 link
          by (rule segment_seq) (simp_all add: s1'_def)
        have ic: "in_catalog w mangaList (length (rounds s)) (rs1 @ rs2)"
          using ic1 ic2 by (intro in_catalog_append) (simp_all add: s1'_def r1)
        have bd: "\<forall>r \<in> set (rs1 @ rs2). i \<le> r_manga r
            \<and> (r_manga r = i \<longrightarrow> c0 \<le> r_chapter r \<and> (r_chapter r = c0 \<longrightarrow> p0 \<le> r_offset r))"
          using bd1 mg1 bd2 by fastforce
        have hd: "rs1 @ rs2 \<noteq> [] \<longrightarrow>
              r_manga (hd (rs1 @ rs2)) = i \<and> r_chapter (hd (rs1 @ rs2)) = c0 \<and> r_offset (hd (rs1 @ rs2)) = p0
              \<or> i < r_manga (hd (rs1 @ rs2)) \<and> r_chapter (hd (rs1 @ rs2)) = 1 \<and> r_offset (hd (rs1 @ rs2)) = 0"
          using hd1 hm1 hd2 by (cases "rs1 = []") (simp_all add: hd_append)
        have ne: "0 < fuel \<and> 0 \<le> i \<and> i < int (length mangaList) \<and> c0 \<le> chapters (mangaList ! nat i) \<longrightarrow>
              rs1 @ rs2 \<noteq> [] \<and> r_manga (hd (rs1 @ rs2)) = i
              \<and> r_chapter (hd (rs1 @ rs2)) = c0 \<and> r_offset (hd (rs1 @ rs2)) = p0"
          using ne1 hd1 hm1 unfolding m_def by (auto simp: hd_append)
        from seg nothrow ic bd hd ne show ?thesis
          unfolding c0_def [symmetric] p0_def [symmetric]
          by (intro exI [of _ "rs1 @ rs2"]) simp
      qed
    qed
  qed
qed


subsection \<open>Decimal text and the checkpoint text\<close>

lemma digit_cases:
  "d < 16 \<Longrightarrow> d \<in> {0, 1, 2, 3, 4, 5, 6, 7, 8, 9, 10, 11, 12, 13, 14, 15 :: nat}"
proof -
  assume "d < 16"
  then have "d = 0 \<or> d = 1 \<or> d = 2 \<or> d = 3 \<or> d = 4 \<or> d = 5 \<or> d = 6 \<or> d = 7 \<or> d = 8
      \<or> d = 9 \<or> d = 10 \<or> d = 11 \<or> d = 12 \<or> d = 13 \<or> d = 14 \<or> d = 15"
    by arith
  then show ?thesis by blast
qed

lemma digit_val_digit_char: "d < 16 \<Longrightarrow> digit_val (digit_char d) = Some d"
  by (drule digit_cases) (auto simp: digit_val_def digit_char_def)

lemma is_digit_digit_char: "d < r \<Longrightarrow> r \<le> 16 \<Longrightarrow> is_digit r (digit_char d)"
  by (simp add: is_digit_def digit_val_digit_char)

lemma digits_value_snoc:
  "digits_value r (z @ [c]) = digits_value r z * r + (case digit_val c of None \<Rightarrow> 0 | Some d \<Rightarrow> d)"
  by (simp add: digits_value_def)

lemma show_nat_digits: "list_all (is_digit 10) (show_nat n)"
proof (induction n rule: show_nat.induct)
  case (1 n)
  show ?case
  proof (cases "n < 10")
    case True
    then show ?thesis by (simp add: show_nat.simps [of n] is_digit_digit_char)
  next
    case False
    with 1 show ?thesis by (simp add: show_nat.simps [of n] is_digit_digit_char)
  qed
qed

lemma show_nat_nonempty: "show_nat n \<noteq> []"
  by (simp add: show_nat.simps [of n])

lemma show_nat_value: "digits_value 10 (show_nat n) = n"
proof (induction n rule: show_nat.induct)
  case (1 n)
  show ?case
  proof (cases "n < 10")
    case True
    then show ?thesis
      by (simp add: show_nat.simps [of n] digits_value_def digit_val_digit_char)
  next
    case False
    with 1 have "digits_value 10 (show_nat (n div 10)) = n div 10" by simp
    with False show ?thesis
      by (simp add: show_nat.simps [of n] digits_value_snoc digit_val_digit_char)
  qed
qed

lemma is_digit_10_chars:
  "is_digit 10 c \<Longrightarrow> c \<noteq> CHR ''-'' \<and> c \<noteq> CHR '','' \<and> c \<noteq> CHR ''}'' \<and> c \<noteq> CHR ''+'' \<and> \<not> is_space c"
  by (auto simp: is_digit_def digit_val_def is_space_def)

lemma decimal_digits_fold:
  "foldl (\<lambda>acc c. acc * 10 + (case digit_val c of None \<Rightarrow> 0 | Some d \<Rightarrow> int d)) (int a) z =
   int (foldl (\<lambda>acc c. acc * 10 + (case digit_val c of None \<Rightarrow> 0 | Some d \<Rightarrow> d)) a z)"
proof (induction z arbitrary: a)
  case Nil
  show ?case by simp
next
  case (Cons c z)
  have "int a * 10 + (case digit_val c of None \<Rightarrow> 0 | Some d \<Rightarrow> int d) =
        int (a * 10 + (case digit_val c of None \<Rightarrow> 0 | Some d \<Rightarrow> d))"
    by (simp split: option.splits)
  with Cons [of "a * 10 + (case digit_val c of None \<Rightarrow> 0 | Some d \<Rightarrow> d)"] show ?case by simp
qed

lemma decimal_digits_value: "decimal_digits z = int (digits_value 10 z)"
  using decimal_digits_fold [of 0 z] by (simp add: decimal_digits_def digits_value_def)

lemma digit_char_zero: "d < 10 \<Longrightarrow> digit_char d = CHR ''0'' \<Longrightarrow> d = 0"
proof -
  assume "d < 10" and z: "digit_char d = CHR ''0''"
  then have "d < 16" by simp
  from digit_val_digit_char [OF this] z have "digit_val (CHR ''0'') = Some d" by simp
  then show ?thesis by (simp add: digit_val_def)
qed

text \<open>The decimal text of a number has no leading zero.\<close>

lemma show_nat_leading: "hd (show_nat n) = CHR ''0'' \<Longrightarrow> show_nat n = ''0''"
proof (induction n rule: show_nat.induct)
  case (1 n)
  show ?case
  proof (cases "n < 10")
    case True
    with "1.prems" have "digit_char n = CHR ''0''" by (simp add: show_nat.simps [of n])
    with True have "n = 0" by (rule digit_char_zero)
    then show ?thesis by (simp add: show_nat.simps [of 0] digit_char_def)
  next
    case False
    with "1.prems" have "hd (show_nat (n div 10)) = CHR ''0''"
      by (simp add: show_nat.simps [of n] show_nat_nonempty)
    with 1 False have "show_nat (n div 10) = ''0''" by simp
    then have "digits_value 10 (show_nat (n div 10)) = 0" by (simp add: digits_value_def digit_val_def)
    then have "n div 10 = 0" by (simp add: show_nat_value)
    with False show ?thesis by simp
  qed
qed

lemma number_start:
  "c = CHR ''-'' \<or> is_digit 10 c \<Longrightarrow>
     \<not> is_json_ws c \<and> c \<noteq> CHR ''{'' \<and> c \<noteq> CHR ''}'' \<and> c \<noteq> CHR ''['' \<and> c \<noteq> CHR '']''
     \<and> c \<noteq> CHR '':'' \<and> c \<noteq> CHR '','' \<and> c \<noteq> CHR 0x22 \<and> c \<noteq> CHR ''t'' \<and> c \<noteq> CHR ''f''
     \<and> c \<noteq> CHR ''n''"
  by (auto simp: is_digit_def digit_val_def is_json_ws_def)

lemma lex_int_show_nat:
  assumes "\<not> is_digit 10 d"
  shows "lex_int (show_nat n @ d # rest) = Some (show_nat n, d # rest)"
proof -
  obtain c cs where sn: "show_nat n = c # cs"
    using show_nat_nonempty [of n] by (cases "show_nat n") auto
  have all: "\<And>x. x \<in> set (show_nat n) \<Longrightarrow> is_digit 10 x"
    using show_nat_digits [of n] by (simp add: list_all_iff)
  show ?thesis
  proof (cases "c = CHR ''0''")
    case True
    with sn show_nat_leading [of n] have "cs = []" by simp
    with True sn show ?thesis by (simp add: lex_int_def)
  next
    case False
    have c: "is_digit 10 c" using all sn by simp
    have "takeWhile (is_digit 10) (show_nat n @ d # rest) = show_nat n"
      and "dropWhile (is_digit 10) (show_nat n @ d # rest) = d # rest"
      using all assms by (simp_all add: takeWhile_append2 dropWhile_append2)
    then have "takeWhile (is_digit 10) (c # cs @ d # rest) = c # cs"
      and "dropWhile (is_digit 10) (c # cs @ d # rest) = d # rest"
      by (simp_all only: sn append_Cons)
    with False c show ?thesis by (simp add: lex_int_def sn)
  qed
qed

lemma lex_number_show_int:
  assumes "d = CHR '','' \<or> d = CHR ''}''"
  shows "lex_number (show_int i @ d # rest) = Some (JNumber i 0, d # rest)"
proof -
  have nd: "\<not> is_digit 10 d" using assms by (auto simp: is_digit_def digit_val_def)
  have fr: "lex_frac (d # rest) = ([], d # rest)" using assms by (auto simp: lex_frac_def)
  have ex: "lex_exp (d # rest) = (0, d # rest)" using assms by (auto simp: lex_exp_def)
  have val: "decimal_digits (show_nat n @ []) = int n" for n
    by (simp add: decimal_digits_value show_nat_value)
  obtain c cs where sn: "show_nat (nat i) = c # cs"
    using show_nat_nonempty [of "nat i"] by (cases "show_nat (nat i)") auto
  have "is_digit 10 c" using show_nat_digits [of "nat i"] by (simp add: sn)
  then have "c \<noteq> CHR ''-''" using is_digit_10_chars [of c] by simp
  then have neg: "(take 1 (show_int i @ d # rest) = ''-'') = (i < 0)"
    by (simp add: show_int_def sn)
  have body: "(if i < 0 then drop 1 (show_int i @ d # rest) else show_int i @ d # rest) =
      show_nat (nat \<bar>i\<bar>) @ d # rest"
    by (simp add: show_int_def)
  have "lex_number (show_int i @ d # rest) =
      Some (decimal ((if i < 0 then - 1 else 1) * decimal_digits (show_nat (nat \<bar>i\<bar>) @ []))
              (0 - int (length ([] :: string))), d # rest)"
    unfolding lex_number_def Let_def neg body lex_int_show_nat [OF nd] option.case prod.case fr ex
    by (rule refl)
  also have "\<dots> = Some (JNumber i 0, d # rest)"
    unfolding val by (simp add: decimal_def)
  finally show ?thesis .
qed

lemma tokens_show_int:
  assumes "d = CHR '','' \<or> d = CHR ''}''"
  shows "tokens (show_int i @ d # rest) = map_option ((#) (TScalar (JNumber i 0))) (tokens (d # rest))"
proof -
  obtain c cs where si: "show_int i = c # cs" and c: "c = CHR ''-'' \<or> is_digit 10 c"
  proof (cases "i < 0")
    case True
    then have "show_int i = CHR ''-'' # show_nat (nat (- i))" by (simp add: show_int_def)
    then show ?thesis using that by blast
  next
    case False
    obtain c cs where sn: "show_nat (nat i) = c # cs"
      using show_nat_nonempty [of "nat i"] by (cases "show_nat (nat i)") auto
    have "is_digit 10 c" using show_nat_digits [of "nat i"] by (simp add: sn)
    with False sn show ?thesis using that by (simp add: show_int_def)
  qed
  from c have plain: "\<not> is_json_ws c" "c \<noteq> CHR ''{''" "c \<noteq> CHR ''}''" "c \<noteq> CHR ''[''" "c \<noteq> CHR '']''"
    "c \<noteq> CHR '':''" "c \<noteq> CHR '',''" "c \<noteq> CHR 0x22" "c \<noteq> CHR ''t''" "c \<noteq> CHR ''f''" "c \<noteq> CHR ''n''"
    using number_start [of c] by simp_all
  have "tokens (c # (cs @ d # rest)) =
      (case lex_number (c # (cs @ d # rest)) of None \<Rightarrow> None
       | Some (v, r) \<Rightarrow> map_option ((#) (TScalar v)) (tokens r))"
    using tokens.simps(2) [of c "cs @ d # rest"] by (simp only: plain if_False)
  moreover have "lex_number (c # (cs @ d # rest)) = Some (JNumber i 0, d # rest)"
    using lex_number_show_int [OF assms, of i rest] by (simp add: si)
  ultimately show ?thesis by (simp add: si)
qed

lemma tokens_key:
  \<open>tokens (CHR 0x22 # c1 # CHR ''I'' # CHR ''d'' # CHR ''x'' # CHR 0x22 # CHR '':'' # s) =
     (if c1 = CHR 0x22 \<or> c1 = CHR 0x5C \<or> (of_char c1 :: nat) < 0x20 then tokens (CHR 0x22 # c1 # ''Idx":'' @ s)
      else map_option (\<lambda>ts. TString (units [c1, CHR ''I'', CHR ''d'', CHR ''x'']) # Colon # ts) (tokens s))\<close>
  by (simp add: tokens.simps(2) is_json_ws_def units_def option.map_comp comp_def)

lemma tokens_stringify:
  "tokens (JSON_stringify st) =
     Some [LBrace, TString (units ''mIdx''), Colon, TScalar (JNumber (mIdx st) 0), Comma,
           TString (units ''cIdx''), Colon, TScalar (JNumber (cIdx st) 0), Comma,
           TString (units ''pIdx''), Colon, TScalar (JNumber (pIdx st) 0), RBrace]"
proof -
  have t3: "tokens (show_int (pIdx st) @ CHR ''}'' # []) = Some [TScalar (JNumber (pIdx st) 0), RBrace]"
    by (subst tokens_show_int) (simp_all add: tokens.simps is_json_ws_def)
  have t2: \<open>tokens (show_int (cIdx st) @ CHR '','' # (''"pIdx":'' @ show_int (pIdx st) @ ''}'')) =
      Some [TScalar (JNumber (cIdx st) 0), Comma, TString (units ''pIdx''), Colon,
            TScalar (JNumber (pIdx st) 0), RBrace]\<close>
    by (subst tokens_show_int) (simp_all add: tokens.simps(2) [of "CHR '',''"] tokens_key t3 is_json_ws_def)
  have t1: \<open>tokens (show_int (mIdx st) @ CHR '','' # (''"cIdx":'' @ show_int (cIdx st) @ '',"pIdx":'' @ show_int (pIdx st) @ ''}'')) =
      Some [TScalar (JNumber (mIdx st) 0), Comma, TString (units ''cIdx''), Colon,
            TScalar (JNumber (cIdx st) 0), Comma, TString (units ''pIdx''), Colon,
            TScalar (JNumber (pIdx st) 0), RBrace]\<close>
    using t2 by (subst tokens_show_int) (simp_all add: tokens.simps(2) [of "CHR '',''"] tokens_key is_json_ws_def)
  have \<open>JSON_stringify st = CHR ''{'' # ''"mIdx":'' @
      (show_int (mIdx st) @ CHR '','' # (''"cIdx":'' @ show_int (cIdx st) @ '',"pIdx":'' @ show_int (pIdx st) @ ''}''))\<close>
    by (simp add: JSON_stringify_def)
  then show ?thesis
    using t1 by (simp add: tokens.simps(2) [of "CHR ''{''"] tokens_key is_json_ws_def)
qed

text \<open>
  \<^verbatim>\<open>JSON.parse\<close> reads the text that \<^verbatim>\<open>JSON.stringify\<close> writes for a triple back as the
  object with these three fields.
\<close>

lemma JSON_parse_stringify: "JSON_parse_text (JSON_stringify st) = Some (checkpoint_value st)"
  by (simp add: JSON_parse_text_def tokens_stringify advance_def open_value_def open_key_def
      close_frame_def deliver_def checkpoint_value_def)

lemma as_checkpoint_value: "as_checkpoint (checkpoint_value st) = Some st"
  by (simp add: as_checkpoint_def checkpoint_value_def property_def integer_of_def units_def)

text \<open>
  The reader on texts outside the shape the worker writes: numbers with a fraction and an
  exponent, escapes in strings, nested arrays and objects, and texts that the grammar
  rejects (a leading zero, a missing digit, a trailing comma, a control character in a
  string, text after the value).
\<close>

lemma JSON_parse_text_numbers:
  "JSON_parse_text '' 12.50e-1 '' = Some (JNumber 125 2)
   \<and> JSON_parse_text ''-0'' = Some (JNumber 0 0)
   \<and> JSON_parse_text ''1E+2'' = Some (JNumber 100 0)
   \<and> JSON_parse_text ''42'' = Some (JNumber 42 0)
   \<and> JSON_parse_text ''01'' = None
   \<and> JSON_parse_text ''1.'' = None
   \<and> JSON_parse_text ''.5'' = None
   \<and> JSON_parse_text ''+1'' = None
   \<and> JSON_parse_text ''1e'' = None
   \<and> JSON_parse_text ''-'' = None"
  by (simp add: JSON_parse_text_def tokens.simps is_json_ws_def lex_number_def lex_int_def
      lex_frac_def lex_exp_def is_digit_def digit_val_def decimal_digits_def decimal_def
      advance_def open_value_def deliver_def eval_nat_numeral)

lemma JSON_parse_text_structures:
  \<open>JSON_parse_text ''[1,[true,false,null],{}]'' =
      Some (JArray [JNumber 1 0, JArray [JBool True, JBool False, JNull], JObject []])
   \<and> JSON_parse_text (''"a'' @ [CHR 0x5C] @ ''n'' @ [CHR 0x5C] @ ''u0041"'') = Some (JString [97, 10, 65])
   \<and> JSON_parse_text ''{"mIdx":1,"mIdx":7}'' =
      Some (JObject [(units ''mIdx'', JNumber 1 0), (units ''mIdx'', JNumber 7 0)])
   \<and> property (JObject [(units ''mIdx'', JNumber 1 0), (units ''mIdx'', JNumber 7 0)]) ''mIdx'' =
      Some (JNumber 7 0)
   \<and> JSON_parse_text '''' = None
   \<and> JSON_parse_text ''[1,]'' = None
   \<and> JSON_parse_text ''{"a":1,}'' = None
   \<and> JSON_parse_text ''{"a" 1}'' = None
   \<and> JSON_parse_text ''{a:1}'' = None
   \<and> JSON_parse_text (''"a'' @ [CHR 0x0A] @ ''"'') = None
   \<and> JSON_parse_text ''nul'' = None
   \<and> JSON_parse_text ''null x'' = None
   \<and> JSON_parse_text ''[1] [2]'' = None\<close>
  by (simp add: JSON_parse_text_def tokens.simps is_json_ws_def lex_number_def lex_int_def
      lex_frac_def lex_exp_def is_digit_def digit_val_def digits_value_def decimal_digits_def
      decimal_def escape_def units_def property_def
      advance_def open_value_def open_key_def close_frame_def deliver_def)

subsection \<open>The stored checkpoint\<close>

lemma JSON_stringify_nonempty: "JSON_stringify st \<noteq> []"
  by (simp add: JSON_stringify_def)

text \<open>
  The checkpoint of the job model is the value that lines 68 to 72 load, wherever
  the stored text is missing, empty, rejected by \<^verbatim>\<open>JSON.parse\<close> or a triple of integers.
\<close>

lemma load_state_stored:
  "reads_triple parse store \<Longrightarrow> as_checkpoint (stored_state store) = Some (load_state parse store)"
  by (auto simp: reads_triple_def stored_state_def load_state_def as_checkpoint_value
      split: option.splits)

text \<open>
  The example platforms read their own store as \<^verbatim>\<open>JSON.parse\<close> does.
\<close>

lemma demo_world_reads_triple:
  "reads_triple (JSON_parse (demo_world mangaList st present clock)) (demo_store st)"
  by (simp add: reads_triple_def demo_world_def demo_store_def JSON_parse_stringify
      as_checkpoint_value JSON_stringify_nonempty)




subsection \<open>Signatures\<close>

lemma verifySignature_iff:
  "verifySignature hmac now_ms path timestamp sig secret =
     (\<exists>sg ts. sig = Some sg \<and> timestamp = Some ts \<and> sg \<noteq> [] \<and> ts \<noteq> []
        \<and> \<not> expired (now_ms div 1000) ts \<and> chunks sg \<noteq> []
        \<and> sig_bytes sg = hmac secret (path @ '':'' @ ts))"
  by (auto simp: verifySignature_def verify_try_def sig_bytes_def Let_def split: option.splits)

lemma hex_digit_plain:
  "d < 16 \<Longrightarrow> \<not> is_space (digit_char d) \<and> \<not> line_terminator (digit_char d)
     \<and> digit_char d \<noteq> CHR ''-'' \<and> digit_char d \<noteq> CHR ''+''
     \<and> digit_char d \<noteq> CHR ''x'' \<and> digit_char d \<noteq> CHR ''X''"
  by (drule digit_cases) (auto simp: digit_char_def is_space_def line_terminator_def)

lemma parseInt_hex_pair:
  assumes "a < 16" "b < 16"
  shows "parseInt [digit_char a, digit_char b] (Some 16) = Some (int (a * 16 + b))"
  using hex_digit_plain [OF assms(1)] hex_digit_plain [OF assms(2)]
    digit_val_digit_char [OF assms(1)] digit_val_digit_char [OF assms(2)] assms
  by (simp add: parseInt_def Let_def is_digit_def digits_value_def)

lemma nibbles: "unat (b :: 8 word) div 16 < 16" "unat b mod 16 < 16"
proof -
  have "unat b < 256" using unsigned_less [of b, where 'a = nat] by simp
  then show "unat b div 16 < 16" by simp
  show "unat b mod 16 < 16" by simp
qed

lemma decode_hex_byte: "to_uint8 (parseInt (hex_byte b) (Some 16)) = b"
proof -
  have "parseInt (hex_byte b) (Some 16) = Some (int (unat b div 16 * 16 + unat b mod 16))"
    unfolding hex_byte_def by (rule parseInt_hex_pair) (rule nibbles)+
  also have "unat b div 16 * 16 + unat b mod 16 = unat b" by simp
  finally show ?thesis by (simp add: to_uint8_def)
qed

lemma chunks_to_hex: "chunks (to_hex bs) = map hex_byte bs"
proof (induction bs)
  case Nil
  show ?case by (simp add: to_hex_def)
next
  case (Cons b bs)
  have "to_hex (b # bs) = digit_char (unat b div 16) # digit_char (unat b mod 16) # to_hex bs"
    by (simp add: to_hex_def hex_byte_def)
  with Cons hex_digit_plain [OF nibbles(1) [of b]] hex_digit_plain [OF nibbles(2) [of b]]
  show ?case by (simp add: hex_byte_def)
qed

lemma sig_bytes_to_hex: "sig_bytes (to_hex bs) = bs"
  by (simp add: sig_bytes_def chunks_to_hex decode_hex_byte map_idI)

lemma to_hex_nonempty: "bs \<noteq> [] \<Longrightarrow> to_hex bs \<noteq> [] \<and> chunks (to_hex bs) \<noteq> []"
  by (cases bs) (simp_all add: chunks_to_hex, simp add: to_hex_def hex_byte_def)

lemma decimal_text:
  assumes ne: "s \<noteq> []" and all: "list_all (is_digit 10) s"
  shows "dropWhile is_space s = s" "take 1 s \<noteq> ''-''" "take 1 s \<noteq> ''+''"
    "take 2 s \<noteq> ''0x''" "take 2 s \<noteq> ''0X''" "takeWhile (is_digit 10) s = s"
proof -
  obtain c ds where s: "s = c # ds" using ne by (cases s) auto
  with all have c: "is_digit 10 c" by simp
  from is_digit_10_chars [OF c] s
  show "dropWhile is_space s = s" "take 1 s \<noteq> ''-''" "take 1 s \<noteq> ''+''"
    by simp_all
  have nd: "\<not> is_digit 10 (CHR ''x'')" "\<not> is_digit 10 (CHR ''X'')"
    by (simp_all add: is_digit_def digit_val_def)
  have sub: "set (take 2 s) \<subseteq> set s" by (rule set_take_subset)
  show "take 2 s \<noteq> ''0x''"
  proof
    assume "take 2 s = ''0x''"
    with sub have "CHR ''x'' \<in> set s" by auto
    with all nd show False by (simp add: list_all_iff)
  qed
  show "take 2 s \<noteq> ''0X''"
  proof
    assume "take 2 s = ''0X''"
    with sub have "CHR ''X'' \<in> set s" by auto
    with all nd show False by (simp add: list_all_iff)
  qed
  show "takeWhile (is_digit 10) s = s"
    using all by (simp add: takeWhile_eq_all_conv list_all_iff)
qed

lemma parseInt_decimal:
  assumes ne: "s \<noteq> []" and all: "list_all (is_digit 10) s"
  shows "parseInt s None = Some (int (digits_value 10 s))"
    and "parseInt (CHR ''-'' # s) None = Some (- int (digits_value 10 s))"
proof -
  note t = decimal_text [OF ne all]
  show "parseInt s None = Some (int (digits_value 10 s))"
    unfolding parseInt_def Let_def by (simp only: t ne simp_thms if_False if_True option.case) simp
  have sp: "dropWhile is_space (CHR ''-'' # s) = CHR ''-'' # s"
    by (simp add: is_space_def)
  have tk: "take 1 (CHR ''-'' # s) = ''-''" "drop 1 (CHR ''-'' # s) = s"
    by simp_all
  show "parseInt (CHR ''-'' # s) None = Some (- int (digits_value 10 s))"
    unfolding parseInt_def Let_def sp tk
    by (simp only: t ne simp_thms if_False if_True option.case) simp
qed

lemma parseInt_show_int: "parseInt (show_int i) None = Some i"
  using parseInt_decimal [OF show_nat_nonempty show_nat_digits]
  by (simp add: show_int_def show_nat_value)

lemma show_int_nonempty: "show_int i \<noteq> []"
  by (simp add: show_int_def show_nat_nonempty)

lemma sig_bytes_nonempty: "sig_bytes sg \<noteq> [] \<Longrightarrow> sg \<noteq> [] \<and> chunks sg \<noteq> []"
  by (cases sg) (auto simp: sig_bytes_def)


lemma verifySignatureI:
  "sg \<noteq> [] \<Longrightarrow> ts \<noteq> [] \<Longrightarrow> \<not> expired (now_ms div 1000) ts \<Longrightarrow> chunks sg \<noteq> [] \<Longrightarrow>
   sig_bytes sg = hmac secret (path @ '':'' @ ts) \<Longrightarrow>
   verifySignature hmac now_ms path (Some ts) (Some sg) secret"
  by (simp add: verifySignature_iff)

lemma parse_Ab: "to_uint8 (parseInt ''Ab'' (Some 16)) = 171"
  by (simp add: parseInt_def Let_def is_space_def is_digit_def digit_val_def digits_value_def
      to_uint8_def)

lemma parse_ts: "parseInt ''1700000000'' None = Some 1700000000"
proof -
  have "show_int 1700000000 = ''1700000000''"
    by (simp add: show_int_def show_nat.simps digit_char_def)
  with parseInt_show_int [of 1700000000] show ?thesis by simp
qed

lemma demo_hmac_first: "\<exists>rest. demo_hmac key data = 171 # rest"
  by (simp add: demo_hmac_def upt_conv_Cons)


lemma demo_hmac_nonempty: "demo_hmac key data \<noteq> []"
  by (simp add: demo_hmac_def)

lemma demo_signature_valid:
  "verifySignature demo_hmac 1700000000000 ''/A/1/0.webp'' (Some ''1700000000'')
      (Some (to_hex (demo_hmac SECRET_KEY (''/A/1/0.webp'' @ '':'' @ ''1700000000'')))) SECRET_KEY"
proof (rule verifySignatureI)
  show "''1700000000'' \<noteq> []" by simp
  show "\<not> expired (1700000000000 div 1000) ''1700000000''"
    by (simp add: expired_def parse_ts)
  show "to_hex (demo_hmac SECRET_KEY (''/A/1/0.webp'' @ '':'' @ ''1700000000'')) \<noteq> []"
    "chunks (to_hex (demo_hmac SECRET_KEY (''/A/1/0.webp'' @ '':'' @ ''1700000000''))) \<noteq> []"
    using to_hex_nonempty [OF demo_hmac_nonempty] by blast+
  show "sig_bytes (to_hex (demo_hmac SECRET_KEY (''/A/1/0.webp'' @ '':'' @ ''1700000000''))) =
      demo_hmac SECRET_KEY (''/A/1/0.webp'' @ '':'' @ ''1700000000'')"
    by (rule sig_bytes_to_hex)
qed

text \<open>
  Claim C5, as amended. \<^verbatim>\<open>verifySignature\<close> returns a boolean and never throws (an
  exception inside its \<^verbatim>\<open>try\<close> block gives false). It returns false when the signature
  or the timestamp is absent or empty, when the timestamp parses to a number that differs
  from the current time by more than 3600 seconds in either direction, when the signature
  holds nothing to decode (the decoding raises), and when the bytes decoded from the
  signature differ from the HMAC tag. Tampering with a valid signature is rejected when it
  changes the decoded bytes, and accepted when it does not. A pair signed with the
  lower-case hexadecimal text of the tag is accepted when its timestamp is within 3600
  seconds of the current time, in particular at \<open>now - 3599\<close>; at \<open>now - 3601\<close> every
  signature is rejected.
\<close>

theorem signature_contract:
  fixes hmac now_ms path secret
  defines "now \<equiv> now_ms div 1000"
  shows "(sig = None \<or> sig = Some [] \<or> timestamp = None \<or> timestamp = Some [] \<longrightarrow>
            \<not> verifySignature hmac now_ms path timestamp sig secret)
     \<and> (timestamp = Some ts \<and> parseInt ts None = Some t \<and> 3600 < \<bar>now - t\<bar> \<longrightarrow>
            \<not> verifySignature hmac now_ms path timestamp sig secret)
     \<and> ((\<exists>e. verify_try hmac now_ms path timestamp sig secret = Inl e) \<longrightarrow>
            \<not> verifySignature hmac now_ms path timestamp sig secret)
     \<and> (sig = Some sg \<and> chunks sg = [] \<longrightarrow>
            \<not> verifySignature hmac now_ms path timestamp sig secret)
     \<and> (sig = Some sg \<and> timestamp = Some ts \<and> sig_bytes sg \<noteq> hmac secret (path @ '':'' @ ts) \<longrightarrow>
            \<not> verifySignature hmac now_ms path timestamp sig secret)
     \<and> (verifySignature hmac now_ms path (Some ts) (Some sg) secret \<and> sig_bytes sg' \<noteq> sig_bytes sg \<longrightarrow>
            \<not> verifySignature hmac now_ms path (Some ts) (Some sg') secret)
     \<and> (verifySignature hmac now_ms path (Some ts) (Some sg) secret \<and> sig_bytes sg' = sig_bytes sg
           \<and> sig_bytes sg \<noteq> [] \<longrightarrow>
            verifySignature hmac now_ms path (Some ts) (Some sg') secret)
     \<and> (ts \<noteq> [] \<and> parseInt ts None = Some t \<and> \<bar>now - t\<bar> \<le> 3600
           \<and> hmac secret (path @ '':'' @ ts) \<noteq> [] \<longrightarrow>
            verifySignature hmac now_ms path (Some ts)
              (Some (to_hex (hmac secret (path @ '':'' @ ts)))) secret)
     \<and> (hmac secret (path @ '':'' @ show_int (now - 3599)) \<noteq> [] \<longrightarrow>
            verifySignature hmac now_ms path (Some (show_int (now - 3599)))
              (Some (to_hex (hmac secret (path @ '':'' @ show_int (now - 3599))))) secret)
     \<and> \<not> verifySignature hmac now_ms path (Some (show_int (now - 3601))) sig secret"
proof -
  have A: "sig = None \<or> sig = Some [] \<or> timestamp = None \<or> timestamp = Some [] \<longrightarrow>
            \<not> verifySignature hmac now_ms path timestamp sig secret"
    by (auto simp: verifySignature_iff)
  have B: "timestamp = Some ts \<and> parseInt ts None = Some t \<and> 3600 < \<bar>now - t\<bar> \<longrightarrow>
            \<not> verifySignature hmac now_ms path timestamp sig secret"
    by (auto simp: verifySignature_iff expired_def now_def)
  have C: "(\<exists>e. verify_try hmac now_ms path timestamp sig secret = Inl e) \<longrightarrow>
            \<not> verifySignature hmac now_ms path timestamp sig secret"
    by (auto simp: verifySignature_def)
  have D: "sig = Some sg \<and> chunks sg = [] \<longrightarrow>
            \<not> verifySignature hmac now_ms path timestamp sig secret"
    by (auto simp: verifySignature_iff)
  have E: "sig = Some sg \<and> timestamp = Some ts \<and> sig_bytes sg \<noteq> hmac secret (path @ '':'' @ ts) \<longrightarrow>
            \<not> verifySignature hmac now_ms path timestamp sig secret"
    by (auto simp: verifySignature_iff)
  have F: "verifySignature hmac now_ms path (Some ts) (Some sg) secret \<and> sig_bytes sg' \<noteq> sig_bytes sg \<longrightarrow>
            \<not> verifySignature hmac now_ms path (Some ts) (Some sg') secret"
    by (auto simp: verifySignature_iff)
  have G: "verifySignature hmac now_ms path (Some ts) (Some sg) secret \<and> sig_bytes sg' = sig_bytes sg
           \<and> sig_bytes sg \<noteq> [] \<longrightarrow>
            verifySignature hmac now_ms path (Some ts) (Some sg') secret"
    using sig_bytes_nonempty [of sg'] by (auto simp: verifySignature_iff)
  have good: "verifySignature hmac now_ms path (Some ts')
              (Some (to_hex (hmac secret (path @ '':'' @ ts')))) secret"
    if "ts' \<noteq> []" "parseInt ts' None = Some t'" "\<bar>now - t'\<bar> \<le> 3600"
      "hmac secret (path @ '':'' @ ts') \<noteq> []" for ts' t'
    using that to_hex_nonempty [of "hmac secret (path @ '':'' @ ts')"]
    by (simp add: verifySignature_iff expired_def now_def sig_bytes_to_hex)
  have H: "ts \<noteq> [] \<and> parseInt ts None = Some t \<and> \<bar>now - t\<bar> \<le> 3600
           \<and> hmac secret (path @ '':'' @ ts) \<noteq> [] \<longrightarrow>
            verifySignature hmac now_ms path (Some ts)
              (Some (to_hex (hmac secret (path @ '':'' @ ts)))) secret"
    using good by blast
  have I: "hmac secret (path @ '':'' @ show_int (now - 3599)) \<noteq> [] \<longrightarrow>
            verifySignature hmac now_ms path (Some (show_int (now - 3599)))
              (Some (to_hex (hmac secret (path @ '':'' @ show_int (now - 3599))))) secret"
    using good [of "show_int (now - 3599)" "now - 3599"]
    by (simp add: show_int_nonempty parseInt_show_int)
  have J: "\<not> verifySignature hmac now_ms path (Some (show_int (now - 3601))) sig secret"
    by (auto simp: verifySignature_iff expired_def now_def parseInt_show_int)
  from A B C D E F G H I J show ?thesis by blast
qed

theorem signature_contract_witness:
  "''1700000000'' \<noteq> [] \<and> parseInt ''1700000000'' None = Some 1700000000
   \<and> \<bar>1700003599000 div 1000 - 1700000000\<bar> \<le> (3600 :: int)
   \<and> demo_hmac SECRET_KEY (''/A/1/0.webp'' @ '':'' @ ''1700000000'') \<noteq> []
   \<and> verifySignature demo_hmac 1700003599000 ''/A/1/0.webp'' (Some ''1700000000'')
        (Some (to_hex (demo_hmac SECRET_KEY (''/A/1/0.webp'' @ '':'' @ ''1700000000'')))) SECRET_KEY
   \<and> (3600 :: int) < \<bar>1700003601000 div 1000 - 1700000000\<bar>
   \<and> \<not> verifySignature demo_hmac 1700003601000 ''/A/1/0.webp'' (Some ''1700000000'')
        (Some (to_hex (demo_hmac SECRET_KEY (''/A/1/0.webp'' @ '':'' @ ''1700000000'')))) SECRET_KEY"
proof -
  have ts: "''1700000000'' \<noteq> []" by simp
  have near: "\<bar>1700003599000 div 1000 - 1700000000\<bar> \<le> (3600 :: int)" by simp
  have far: "(3600 :: int) < \<bar>1700003601000 div 1000 - 1700000000\<bar>" by simp
  note tag = demo_hmac_nonempty [of SECRET_KEY "''/A/1/0.webp'' @ '':'' @ ''1700000000''"]
  have good: "verifySignature demo_hmac 1700003599000 ''/A/1/0.webp'' (Some ''1700000000'')
        (Some (to_hex (demo_hmac SECRET_KEY (''/A/1/0.webp'' @ '':'' @ ''1700000000'')))) SECRET_KEY"
    using signature_contract [where hmac = demo_hmac and now_ms = 1700003599000
        and path = "''/A/1/0.webp''" and secret = SECRET_KEY and ts = "''1700000000''"
        and t = 1700000000] ts parse_ts near tag
    by blast
  have late: "\<not> verifySignature demo_hmac 1700003601000 ''/A/1/0.webp'' (Some ''1700000000'')
        (Some (to_hex (demo_hmac SECRET_KEY (''/A/1/0.webp'' @ '':'' @ ''1700000000'')))) SECRET_KEY"
    using signature_contract [where hmac = demo_hmac and now_ms = 1700003601000
        and path = "''/A/1/0.webp''" and secret = SECRET_KEY and ts = "''1700000000''"
        and t = 1700000000 and timestamp = "Some ''1700000000''"
        and sig = "Some (to_hex (demo_hmac SECRET_KEY (''/A/1/0.webp'' @ '':'' @ ''1700000000'')))"]
      parse_ts far
    by blast
  from ts parse_ts near tag good far late show ?thesis by blast
qed

text \<open>
  Claim C5 as stated fails for tampering that the decoding does not see. The signature is
  decoded two characters at a time by \<^verbatim>\<open>parseInt(byte, 16)\<close>, which reads \<open>Ab\<close> as it reads
  \<open>ab\<close>: replacing the first character \<open>a\<close> of a valid signature by \<open>A\<close> leaves it valid.
\<close>

theorem signature_contract_counterexample:
  "verifySignature demo_hmac 1700000000000 ''/A/1/0.webp'' (Some ''1700000000'')
      (Some (to_hex (demo_hmac SECRET_KEY (''/A/1/0.webp'' @ '':'' @ ''1700000000'')))) SECRET_KEY
   \<and> hd (to_hex (demo_hmac SECRET_KEY (''/A/1/0.webp'' @ '':'' @ ''1700000000''))) = CHR ''a''
   \<and> verifySignature demo_hmac 1700000000000 ''/A/1/0.webp'' (Some ''1700000000'')
      (Some (CHR ''A'' # tl (to_hex (demo_hmac SECRET_KEY (''/A/1/0.webp'' @ '':'' @ ''1700000000''))))) SECRET_KEY"
proof -
  define tag where "tag = demo_hmac SECRET_KEY (''/A/1/0.webp'' @ '':'' @ ''1700000000'')"
  obtain rest where tag: "tag = 171 # rest"
    using demo_hmac_first unfolding tag_def by blast
  have hx: "to_hex tag = CHR ''a'' # CHR ''b'' # to_hex rest"
    by (simp add: tag to_hex_def hex_byte_def digit_char_def)
  have fresh: "\<not> expired (1700000000000 div 1000) ''1700000000''"
    by (simp add: expired_def parse_ts)
  have ts: "''1700000000'' \<noteq> []" by simp
  have valid: "verifySignature demo_hmac 1700000000000 ''/A/1/0.webp'' (Some ''1700000000'')
      (Some (to_hex tag)) SECRET_KEY"
  proof (rule verifySignatureI [OF _ ts fresh])
    show "to_hex tag \<noteq> []" "chunks (to_hex tag) \<noteq> []"
      using to_hex_nonempty [of tag] by (simp_all add: tag)
    show "sig_bytes (to_hex tag) = demo_hmac SECRET_KEY (''/A/1/0.webp'' @ '':'' @ ''1700000000'')"
      unfolding tag_def [symmetric] by (rule sig_bytes_to_hex)
  qed
  have "sig_bytes (CHR ''A'' # CHR ''b'' # to_hex rest) =
      to_uint8 (parseInt ''Ab'' (Some 16)) # sig_bytes (to_hex rest)"
    by (simp add: sig_bytes_def line_terminator_def)
  then have "sig_bytes (CHR ''A'' # CHR ''b'' # to_hex rest) = tag"
    by (simp add: parse_Ab sig_bytes_to_hex tag)
  then have same: "sig_bytes (CHR ''A'' # tl (to_hex tag)) = tag"
    unfolding hx by simp
  have tampered: "verifySignature demo_hmac 1700000000000 ''/A/1/0.webp'' (Some ''1700000000'')
      (Some (CHR ''A'' # tl (to_hex tag))) SECRET_KEY"
  proof (rule verifySignatureI [OF _ ts fresh])
    show "CHR ''A'' # tl (to_hex tag) \<noteq> []" by simp
    show "chunks (CHR ''A'' # tl (to_hex tag)) \<noteq> []"
      unfolding hx by (simp add: line_terminator_def)
    show "sig_bytes (CHR ''A'' # tl (to_hex tag)) = demo_hmac SECRET_KEY (''/A/1/0.webp'' @ '':'' @ ''1700000000'')"
      unfolding tag_def [symmetric] by (rule same)
  qed
  have first: "hd (to_hex tag) = CHR ''a''"
    unfolding hx by simp
  have all3: "verifySignature demo_hmac 1700000000000 ''/A/1/0.webp'' (Some ''1700000000'')
      (Some (to_hex tag)) SECRET_KEY \<and> hd (to_hex tag) = CHR ''a'' \<and>
      verifySignature demo_hmac 1700000000000 ''/A/1/0.webp'' (Some ''1700000000'')
      (Some (CHR ''A'' # tl (to_hex tag))) SECRET_KEY"
    using valid first tampered by (intro conjI)
  show ?thesis
    by (rule all3 [unfolded tag_def])
qed

text \<open>
  Claim C9. When the integer parse of the timestamp yields NaN, the expiry check rejects at
  no time, and a request whose signature decodes to the HMAC tag of \<open>path:timestamp\<close> is
  accepted whatever the current time.
\<close>

theorem nan_timestamp_never_expires:
  assumes nan: "parseInt ts None = None" and ts: "ts \<noteq> []"
    and tag: "hmac secret (path @ '':'' @ ts) \<noteq> []"
    and signed: "sig_bytes sg = hmac secret (path @ '':'' @ ts)"
  shows "\<forall>now_ms. \<not> expired (now_ms div 1000) ts
           \<and> verifySignature hmac now_ms path (Some ts) (Some sg) secret"
proof
  fix now_ms
  from tag signed have "sg \<noteq> [] \<and> chunks sg \<noteq> []"
    by (intro sig_bytes_nonempty) simp
  moreover have "\<not> expired (now_ms div 1000) ts"
    by (simp add: expired_def nan)
  ultimately show "\<not> expired (now_ms div 1000) ts
           \<and> verifySignature hmac now_ms path (Some ts) (Some sg) secret"
    using ts signed by (simp add: verifySignature_iff)
qed

theorem nan_timestamp_never_expires_witness:
  "parseInt ''abc'' None = None \<and> ''abc'' \<noteq> []
   \<and> demo_hmac SECRET_KEY (''/A/1/0.webp'' @ '':'' @ ''abc'') \<noteq> []
   \<and> sig_bytes (to_hex (demo_hmac SECRET_KEY (''/A/1/0.webp'' @ '':'' @ ''abc'')))
        = demo_hmac SECRET_KEY (''/A/1/0.webp'' @ '':'' @ ''abc'')
   \<and> verifySignature demo_hmac 0 ''/A/1/0.webp'' (Some ''abc'')
        (Some (to_hex (demo_hmac SECRET_KEY (''/A/1/0.webp'' @ '':'' @ ''abc'')))) SECRET_KEY
   \<and> verifySignature demo_hmac 4102444800000 ''/A/1/0.webp'' (Some ''abc'')
        (Some (to_hex (demo_hmac SECRET_KEY (''/A/1/0.webp'' @ '':'' @ ''abc'')))) SECRET_KEY"
proof -
  have nan: "parseInt ''abc'' None = None"
    by (simp add: parseInt_def Let_def is_space_def is_digit_def digit_val_def)
  have ts: "''abc'' \<noteq> []" by simp
  note tag = demo_hmac_nonempty [of SECRET_KEY "''/A/1/0.webp'' @ '':'' @ ''abc''"]
  note signed = sig_bytes_to_hex [of "demo_hmac SECRET_KEY (''/A/1/0.webp'' @ '':'' @ ''abc'')"]
  note inst = nan_timestamp_never_expires [where hmac = demo_hmac and secret = SECRET_KEY
      and path = "''/A/1/0.webp''" and ts = "''abc''", OF nan ts tag signed, rule_format]
  from inst [of 0] inst [of 4102444800000] nan ts tag signed show ?thesis by blast
qed

subsection \<open>The proxy\<close>

lemma show_ttl: "show_int CACHE_TTL = ''2592000''"
  by (simp add: CACHE_TTL_def show_int_def show_nat.simps digit_char_def)

lemma serve_hit:
  "cache url = Some cached \<Longrightarrow>
   \<exists>r. serve_targets cache origin (url # targets) seen = Inr r \<and> is_hit r cached \<and> fetched r = seen"
  by (simp add: is_hit_def headers_get_def headers_set_def)

lemma serve_miss:
  "cache url = None \<Longrightarrow> origin url = Reply res d \<Longrightarrow> ok res \<Longrightarrow>
   \<exists>r. serve_targets cache origin (url # targets) seen = Inr r \<and> is_miss r url res
      \<and> fetched r = seen @ [url]"
  by (simp add: is_miss_def headers_get_def headers_set_def Let_def show_ttl lower_char_def)

lemma serve_next:
  "cache url = None \<Longrightarrow> origin url = Reply res d \<Longrightarrow> \<not> ok res \<Longrightarrow>
   serve_targets cache origin (url # targets) seen = serve_targets cache origin targets (seen @ [url])"
  by simp

lemma serve_none:
  "\<exists>r. serve_targets cache origin [] seen = Inr r \<and> is_not_found r \<and> fetched r = seen"
  by (simp add: is_not_found_def text_response_def headers_get_def headers_set_def lower_char_def)

lemma serve_targets_status:
  "serve_targets cache origin targets seen = Inr r \<Longrightarrow> status (resp r) = 200 \<or> status (resp r) = 404"
proof (induction targets arbitrary: seen)
  case Nil
  then show ?case by (auto simp: text_response_def)
next
  case (Cons url targets)
  then show ?case
    by (auto simp: Let_def split: option.splits origin_reply.splits if_splits)
qed

lemma proxy_targets_parts:
  "proxy_targets (manga # chapter # file # extra) =
     [''https://cdne.megaman-server.ir/564/'' @ manga @ ''/'' @ chapter @ ''/HD/'' @ file,
      ''https://cdne.megaman-server.ir/564/'' @ manga @ ''/'' @ chapter @ ''/'' @ file]"
  by (simp add: proxy_targets_def part_def Let_def)

lemma fetch_handler_cases:
  "fetch_handler env req =
     (if length (filter (\<lambda>p. p \<noteq> []) (split_on (CHR ''/'') (pathname req))) < 3
      then Inr \<lparr>resp = text_response ''Manga Proxy Engine v3.1 | Status: Online'' 200
                         (headers_set Map.empty ''Content-Type'' ''text/plain; charset=utf-8''),
                fetched = [], cache_puts = []\<rparr>
      else if \<not> verifySignature (hmac_sha256 env) (date_now env) (pathname req) (param_t req)
                     (param_sig req) SECRET_KEY
      then Inr \<lparr>resp = text_response ''Access Denied: Invalid or Expired Signature'' 403 Map.empty,
                fetched = [], cache_puts = []\<rparr>
      else handleMangaLogic (edge_cache env) (origin_server env)
             (filter (\<lambda>p. p \<noteq> []) (split_on (CHR ''/'') (pathname req))))"
  by (simp add: fetch_handler_def Let_def)


text \<open>
  Claim C4, as amended. Let \<open>hd_url\<close> and \<open>fallback_url\<close> be the two URL variants of the
  requested page, in this order. A cache hit on a variant returns at once a response with
  status 200, the cached body and the header \<open>X-Proxy-Cache: HIT-V3\<close>, with no origin fetch
  for that variant (none at all when the HD variant hits). A miss whose origin answer is a
  success (2xx) returns status 200 with the origin body and the headers
  \<open>Access-Control-Allow-Origin: *\<close>, \<open>Cache-Control: public, max-age=2592000, immutable\<close> and
  \<open>X-Proxy-Cache: MISS\<close>, and schedules the cache write of that response. When both
  variants miss the cache and the origin answers neither with a success, the result is the
  404 plain-text response.
\<close>

theorem cache_fill_proxy:
  assumes targets: "proxy_targets pathParts = [hd_url, fallback_url]"
  shows "(cache hd_url = Some cached \<longrightarrow>
            (\<exists>r. handleMangaLogic cache org pathParts = Inr r \<and> is_hit r cached \<and> fetched r = []))
     \<and> (cache hd_url = None \<and> org hd_url = Reply res d \<and> ok res \<longrightarrow>
            (\<exists>r. handleMangaLogic cache org pathParts = Inr r \<and> is_miss r hd_url res
               \<and> fetched r = [hd_url]))
     \<and> (cache hd_url = None \<and> org hd_url = Reply res d \<and> \<not> ok res
          \<and> cache fallback_url = Some cached \<longrightarrow>
            (\<exists>r. handleMangaLogic cache org pathParts = Inr r \<and> is_hit r cached
               \<and> fetched r = [hd_url]))
     \<and> (cache hd_url = None \<and> org hd_url = Reply res d \<and> \<not> ok res
          \<and> cache fallback_url = None \<and> org fallback_url = Reply res2 d2 \<and> ok res2 \<longrightarrow>
            (\<exists>r. handleMangaLogic cache org pathParts = Inr r \<and> is_miss r fallback_url res2
               \<and> fetched r = [hd_url, fallback_url]))
     \<and> (cache hd_url = None \<and> org hd_url = Reply res d \<and> \<not> ok res
          \<and> cache fallback_url = None \<and> org fallback_url = Reply res2 d2 \<and> \<not> ok res2 \<longrightarrow>
            (\<exists>r. handleMangaLogic cache org pathParts = Inr r \<and> is_not_found r
               \<and> fetched r = [hd_url, fallback_url]))"
proof -
  have run: "handleMangaLogic cache org pathParts = serve_targets cache org [hd_url, fallback_url] []"
    by (simp add: handleMangaLogic_def targets)
  have A: "cache hd_url = Some cached \<longrightarrow>
            (\<exists>r. handleMangaLogic cache org pathParts = Inr r \<and> is_hit r cached \<and> fetched r = [])"
    unfolding run using serve_hit [of cache hd_url cached org "[fallback_url]" "[]"] by blast
  have B: "cache hd_url = None \<and> org hd_url = Reply res d \<and> ok res \<longrightarrow>
            (\<exists>r. handleMangaLogic cache org pathParts = Inr r \<and> is_miss r hd_url res
               \<and> fetched r = [hd_url])"
    unfolding run using serve_miss [of cache hd_url org res d "[fallback_url]" "[]"] by auto
  have nxt: "serve_targets cache org [hd_url, fallback_url] [] = serve_targets cache org [fallback_url] [hd_url]"
    if "cache hd_url = None" "org hd_url = Reply res d" "\<not> ok res"
    using serve_next [where cache = cache and origin = org and url = hd_url
        and targets = "[fallback_url]" and seen = "[]", OF that] by simp
  have C: "cache hd_url = None \<and> org hd_url = Reply res d \<and> \<not> ok res
          \<and> cache fallback_url = Some cached \<longrightarrow>
            (\<exists>r. handleMangaLogic cache org pathParts = Inr r \<and> is_hit r cached
               \<and> fetched r = [hd_url])"
    unfolding run using nxt serve_hit [of cache fallback_url cached org "[]" "[hd_url]"] by auto
  have D: "cache hd_url = None \<and> org hd_url = Reply res d \<and> \<not> ok res
          \<and> cache fallback_url = None \<and> org fallback_url = Reply res2 d2 \<and> ok res2 \<longrightarrow>
            (\<exists>r. handleMangaLogic cache org pathParts = Inr r \<and> is_miss r fallback_url res2
               \<and> fetched r = [hd_url, fallback_url])"
    unfolding run using nxt serve_miss [of cache fallback_url org res2 d2 "[]" "[hd_url]"] by auto
  have E: "cache hd_url = None \<and> org hd_url = Reply res d \<and> \<not> ok res
          \<and> cache fallback_url = None \<and> org fallback_url = Reply res2 d2 \<and> \<not> ok res2 \<longrightarrow>
            (\<exists>r. handleMangaLogic cache org pathParts = Inr r \<and> is_not_found r
               \<and> fetched r = [hd_url, fallback_url])"
  proof (intro impI, elim conjE)
    assume a: "cache hd_url = None" "org hd_url = Reply res d" "\<not> ok res"
      and b: "cache fallback_url = None" "org fallback_url = Reply res2 d2" "\<not> ok res2"
    have "serve_targets cache org [hd_url, fallback_url] [] = serve_targets cache org [] [hd_url, fallback_url]"
      using nxt [OF a] serve_next [where cache = cache and origin = org and url = fallback_url
          and targets = "[]" and seen = "[hd_url]", OF b] by simp
    with serve_none [of cache org "[hd_url, fallback_url]"]
    show "\<exists>r. handleMangaLogic cache org pathParts = Inr r \<and> is_not_found r
               \<and> fetched r = [hd_url, fallback_url]"
      unfolding run by simp
  qed
  from A B C D E show ?thesis by blast
qed

theorem cache_fill_proxy_witness:
  "proxy_targets [''A'', ''1'', ''0.webp''] =
      [''https://cdne.megaman-server.ir/564/A/1/HD/0.webp'', ''https://cdne.megaman-server.ir/564/A/1/0.webp'']
   \<and> \<not> ok (demo_page 404) \<and> ok (demo_page 206)
   \<and> (\<exists>r. handleMangaLogic Map.empty
          (\<lambda>url. if url = ''https://cdne.megaman-server.ir/564/A/1/HD/0.webp''
                  then Reply (demo_page 404) True else Reply (demo_page 206) True)
          [''A'', ''1'', ''0.webp''] = Inr r
        \<and> is_miss r ''https://cdne.megaman-server.ir/564/A/1/0.webp'' (demo_page 206)
        \<and> fetched r = [''https://cdne.megaman-server.ir/564/A/1/HD/0.webp'',
                         ''https://cdne.megaman-server.ir/564/A/1/0.webp''])"
proof -
  let ?org = "\<lambda>url. if url = ''https://cdne.megaman-server.ir/564/A/1/HD/0.webp''
                  then Reply (demo_page 404) True else Reply (demo_page 206) True"
  have t: "proxy_targets [''A'', ''1'', ''0.webp''] =
      [''https://cdne.megaman-server.ir/564/A/1/HD/0.webp'', ''https://cdne.megaman-server.ir/564/A/1/0.webp'']"
    by (simp add: proxy_targets_parts)
  have o1: "?org ''https://cdne.megaman-server.ir/564/A/1/HD/0.webp'' = Reply (demo_page 404) True"
    by simp
  have o2: "?org ''https://cdne.megaman-server.ir/564/A/1/0.webp'' = Reply (demo_page 206) True"
    by simp
  have k: "\<not> ok (demo_page 404)" "ok (demo_page 206)"
    by (simp_all add: ok_def demo_page_def)
  note inst = cache_fill_proxy [OF t, where cache = Map.empty and org = ?org
      and res = "demo_page 404" and d = True and ?res2.0 = "demo_page 206" and ?d2.0 = True]
  have "\<exists>r. handleMangaLogic Map.empty ?org [''A'', ''1'', ''0.webp''] = Inr r
        \<and> is_miss r ''https://cdne.megaman-server.ir/564/A/1/0.webp'' (demo_page 206)
        \<and> fetched r = [''https://cdne.megaman-server.ir/564/A/1/HD/0.webp'',
                         ''https://cdne.megaman-server.ir/564/A/1/0.webp'']"
    by (rule inst [THEN conjunct2, THEN conjunct2, THEN conjunct2, THEN conjunct1, rule_format])
       (simp add: k)
  with t k show ?thesis by blast
qed

text \<open>
  Claim C4 as stated names the header value \<open>HIT\<close>; the code stamps \<open>HIT-V3\<close>.
\<close>

theorem cache_fill_proxy_counterexample:
  "handleMangaLogic [''https://cdne.megaman-server.ir/564/A/1/HD/0.webp'' \<mapsto> demo_page 200]
      (\<lambda>url. NetFail) [''A'', ''1'', ''0.webp''] =
     Inr \<lparr>resp = \<lparr>status = 200,
                  hdrs = [''content-type'' \<mapsto> ''image/webp'', ''x-proxy-cache'' \<mapsto> ''HIT-V3''],
                  body = ''img''\<rparr>,
          fetched = [], cache_puts = []\<rparr>
   \<and> headers_get [''content-type'' \<mapsto> ''image/webp'', ''x-proxy-cache'' \<mapsto> ''HIT-V3''] ''X-Proxy-Cache''
       \<noteq> Some ''HIT''"
  by (simp add: handleMangaLogic_def proxy_targets_parts demo_page_def headers_set_def headers_get_def
      lower_char_def)

text \<open>
  Claim C10. Every response the fetch handler returns has status 200, 403 or 404. In
  particular, for a signed request of at least three path segments, a cache hit is served
  with status 200 and the cached body whatever status the cached response carries, and an
  origin response with any status from 200 to 299 is served with status 200.
\<close>

theorem handler_status:
  assumes parts: "pathParts = filter (\<lambda>p. p \<noteq> []) (split_on (CHR ''/'') (pathname req))"
  shows "(fetch_handler env req = Inr r \<longrightarrow>
            status (resp r) = 200 \<or> status (resp r) = 403 \<or> status (resp r) = 404)
     \<and> (3 \<le> length pathParts
          \<and> verifySignature (hmac_sha256 env) (date_now env) (pathname req) (param_t req)
                (param_sig req) SECRET_KEY
          \<and> proxy_targets pathParts = [hd_url, fallback_url]
          \<and> edge_cache env hd_url = Some cached \<longrightarrow>
            (\<exists>r'. fetch_handler env req = Inr r' \<and> status (resp r') = 200
               \<and> body (resp r') = body cached))
     \<and> (3 \<le> length pathParts
          \<and> verifySignature (hmac_sha256 env) (date_now env) (pathname req) (param_t req)
                (param_sig req) SECRET_KEY
          \<and> proxy_targets pathParts = [hd_url, fallback_url]
          \<and> edge_cache env hd_url = None \<and> origin_server env hd_url = Reply res d
          \<and> 200 \<le> status res \<and> status res \<le> 299 \<longrightarrow>
            (\<exists>r'. fetch_handler env req = Inr r' \<and> status (resp r') = 200
               \<and> body (resp r') = body res))"
proof -
  let ?sig_ok = "verifySignature (hmac_sha256 env) (date_now env) (pathname req) (param_t req)
                (param_sig req) SECRET_KEY"
  have unfolded: "fetch_handler env req =
     (if length pathParts < 3
      then Inr \<lparr>resp = text_response ''Manga Proxy Engine v3.1 | Status: Online'' 200
                         (headers_set Map.empty ''Content-Type'' ''text/plain; charset=utf-8''),
                fetched = [], cache_puts = []\<rparr>
      else if \<not> ?sig_ok
      then Inr \<lparr>resp = text_response ''Access Denied: Invalid or Expired Signature'' 403 Map.empty,
                fetched = [], cache_puts = []\<rparr>
      else handleMangaLogic (edge_cache env) (origin_server env) pathParts)"
    unfolding parts by (rule fetch_handler_cases)
  have A: "fetch_handler env req = Inr r \<longrightarrow>
            status (resp r) = 200 \<or> status (resp r) = 403 \<or> status (resp r) = 404"
  proof
    assume h: "fetch_handler env req = Inr r"
    show "status (resp r) = 200 \<or> status (resp r) = 403 \<or> status (resp r) = 404"
    proof (cases "length pathParts < 3")
      case True
      with h [unfolded unfolded] show ?thesis
        by (auto simp: text_response_def)
    next
      case long: False
      show ?thesis
      proof (cases ?sig_ok)
        case False
        with long h [unfolded unfolded] show ?thesis
          by (auto simp: text_response_def)
      next
        case True
        with long h [unfolded unfolded]
        have "serve_targets (edge_cache env) (origin_server env) (proxy_targets pathParts) [] = Inr r"
          by (simp add: handleMangaLogic_def)
        from serve_targets_status [OF this] show ?thesis by blast
      qed
    qed
  qed
  have proxy: "fetch_handler env req = handleMangaLogic (edge_cache env) (origin_server env) pathParts"
    if "3 \<le> length pathParts" ?sig_ok
    using that by (simp add: unfolded)
  have B: "3 \<le> length pathParts \<and> ?sig_ok \<and> proxy_targets pathParts = [hd_url, fallback_url]
          \<and> edge_cache env hd_url = Some cached \<longrightarrow>
            (\<exists>r'. fetch_handler env req = Inr r' \<and> status (resp r') = 200
               \<and> body (resp r') = body cached)"
  proof (intro impI, elim conjE)
    assume a: "3 \<le> length pathParts" ?sig_ok and t: "proxy_targets pathParts = [hd_url, fallback_url]"
      and c: "edge_cache env hd_url = Some cached"
    from serve_hit [where cache = "edge_cache env" and url = hd_url and origin = "origin_server env"
        and targets = "[fallback_url]" and seen = "[]", OF c]
    show "\<exists>r'. fetch_handler env req = Inr r' \<and> status (resp r') = 200 \<and> body (resp r') = body cached"
      unfolding proxy [OF a] handleMangaLogic_def t by (auto simp: is_hit_def)
  qed
  have C: "3 \<le> length pathParts \<and> ?sig_ok \<and> proxy_targets pathParts = [hd_url, fallback_url]
          \<and> edge_cache env hd_url = None \<and> origin_server env hd_url = Reply res d
          \<and> 200 \<le> status res \<and> status res \<le> 299 \<longrightarrow>
            (\<exists>r'. fetch_handler env req = Inr r' \<and> status (resp r') = 200
               \<and> body (resp r') = body res)"
  proof (intro impI, elim conjE)
    assume a: "3 \<le> length pathParts" ?sig_ok and t: "proxy_targets pathParts = [hd_url, fallback_url]"
      and c: "edge_cache env hd_url = None" and o: "origin_server env hd_url = Reply res d"
      and k: "200 \<le> status res" "status res \<le> 299"
    from k have "ok res" by (simp add: ok_def)
    from serve_miss [where cache = "edge_cache env" and url = hd_url and origin = "origin_server env"
        and targets = "[fallback_url]" and seen = "[]", OF c o this]
    show "\<exists>r'. fetch_handler env req = Inr r' \<and> status (resp r') = 200 \<and> body (resp r') = body res"
      unfolding proxy [OF a] handleMangaLogic_def t by (auto simp: is_miss_def)
  qed
  from A B C show ?thesis by blast
qed

theorem handler_status_witness:
  "filter (\<lambda>p. p \<noteq> []) (split_on (CHR ''/'') (pathname demo_request)) = [''A'', ''1'', ''0.webp'']
   \<and> verifySignature (hmac_sha256 demo_env) (date_now demo_env) (pathname demo_request)
        (param_t demo_request) (param_sig demo_request) SECRET_KEY
   \<and> edge_cache demo_env ''https://cdne.megaman-server.ir/564/A/1/HD/0.webp'' = Some (demo_page 500)
   \<and> status (demo_page 500) = 500
   \<and> (\<exists>r'. fetch_handler demo_env demo_request = Inr r' \<and> status (resp r') = 200
         \<and> body (resp r') = body (demo_page 500))"
proof -
  have parts: "filter (\<lambda>p. p \<noteq> []) (split_on (CHR ''/'') (pathname demo_request)) = [''A'', ''1'', ''0.webp'']"
    by (simp add: demo_request_def)
  have sg: "verifySignature (hmac_sha256 demo_env) (date_now demo_env) (pathname demo_request)
        (param_t demo_request) (param_sig demo_request) SECRET_KEY"
    using demo_signature_valid by (simp add: demo_env_def demo_request_def del: append.simps)
  have c: "edge_cache demo_env ''https://cdne.megaman-server.ir/564/A/1/HD/0.webp'' = Some (demo_page 500)"
    by (simp add: demo_env_def)
  have t: "proxy_targets [''A'', ''1'', ''0.webp''] =
      [''https://cdne.megaman-server.ir/564/A/1/HD/0.webp'', ''https://cdne.megaman-server.ir/564/A/1/0.webp'']"
    by (simp add: proxy_targets_parts)
  have "\<exists>r'. fetch_handler demo_env demo_request = Inr r' \<and> status (resp r') = 200
         \<and> body (resp r') = body (demo_page 500)"
    by (rule handler_status [OF parts [symmetric], where env = demo_env
          and hd_url = "''https://cdne.megaman-server.ir/564/A/1/HD/0.webp''"
          and fallback_url = "''https://cdne.megaman-server.ir/564/A/1/0.webp''",
          THEN conjunct2, THEN conjunct1, rule_format])
       (simp add: parts sg c t)
  with parts sg c show ?thesis by (simp add: demo_page_def)
qed

subsection \<open>A run of the job\<close>

lemma runSmartCacher_traverse:
  assumes cat: "catalog w = Fetched True (Array mangaList)"
    and run: "runSmartCacher w fuel store = (fl, s')"
  shows "\<exists>fl2 s2. scan_mangas w fuel mangaList (mIdx (load_state (JSON_parse w) store))
              \<lparr>kv = store, state = load_state (JSON_parse w) store, rounds = []\<rparr> = (fl2, s2)
           \<and> rounds s' = rounds s2
           \<and> (fl2 = Next \<longrightarrow> fl = Return
                \<and> kv s' = persist_state (kv s2) \<lparr>mIdx = 0, cIdx = 1, pIdx = 0\<rparr>)
           \<and> (fl2 \<noteq> Next \<longrightarrow> fl = fl2 \<and> s' = s2)"
proof -
  obtain fl2 s2 where sm: "scan_mangas w fuel mangaList (mIdx (load_state (JSON_parse w) store))
              \<lparr>kv = store, state = load_state (JSON_parse w) store, rounds = []\<rparr> = (fl2, s2)"
    by (cases "scan_mangas w fuel mangaList (mIdx (load_state (JSON_parse w) store))
              \<lparr>kv = store, state = load_state (JSON_parse w) store, rounds = []\<rparr>")
  from run cat sm have "rounds s' = rounds s2
           \<and> (fl2 = Next \<longrightarrow> fl = Return
                \<and> kv s' = persist_state (kv s2) \<lparr>mIdx = 0, cIdx = 1, pIdx = 0\<rparr>)
           \<and> (fl2 \<noteq> Next \<longrightarrow> fl = fl2 \<and> s' = s2)"
    by (cases fl2) (auto simp: runSmartCacher_def)
  with sm show ?thesis by blast
qed

text \<open>The facts about a run of the job over a catalog, gathered.\<close>

lemma runSmartCacher_rounds:
  assumes cat: "catalog w = Fetched True (Array mangaList)"
    and run: "runSmartCacher w fuel store = (fl, s')"
    and st: "st = load_state (JSON_parse w) store"
  shows "successively follows (rounds s')"
    and "in_catalog w mangaList 0 (rounds s')"
    and "\<forall>r \<in> set (rounds s'). mIdx st \<le> r_manga r
            \<and> (r_manga r = mIdx st \<longrightarrow> cIdx st \<le> r_chapter r
                 \<and> (r_chapter r = cIdx st \<longrightarrow> pIdx st \<le> r_offset r))"
    and "rounds s' \<noteq> [] \<longrightarrow>
            r_manga (hd (rounds s')) = mIdx st \<and> r_chapter (hd (rounds s')) = cIdx st
              \<and> r_offset (hd (rounds s')) = pIdx st
            \<or> mIdx st < r_manga (hd (rounds s')) \<and> r_chapter (hd (rounds s')) = 1
              \<and> r_offset (hd (rounds s')) = 0"
    and "0 < fuel \<and> 0 \<le> mIdx st \<and> mIdx st < int (length mangaList)
            \<and> cIdx st \<le> chapters (mangaList ! nat (mIdx st)) \<longrightarrow>
          rounds s' \<noteq> [] \<and> r_manga (hd (rounds s')) = mIdx st
            \<and> r_chapter (hd (rounds s')) = cIdx st \<and> r_offset (hd (rounds s')) = pIdx st"
    and "\<forall>k < length (rounds s'). over_budget w k \<longrightarrow>
           Suc k = length (rounds s') \<and> fl = Return
           \<and> kv s' = persist_state store (halt_checkpoint (rounds s' ! k))"
    and "fl = Return \<and> (\<forall>k < length (rounds s'). \<not> over_budget w k) \<longrightarrow>
           kv s' = persist_state store \<lparr>mIdx = 0, cIdx = 1, pIdx = 0\<rparr>"
    and "fl \<noteq> Next"
proof -
  define s1 where "s1 = \<lparr>kv = store, state = st, rounds = []\<rparr>"
  from runSmartCacher_traverse [OF cat run] obtain fl2 s2 where
    sm: "scan_mangas w fuel mangaList (mIdx (state s1)) s1 = (fl2, s2)"
    and r: "rounds s' = rounds s2"
    and nx: "fl2 = Next \<longrightarrow> fl = Return \<and> kv s' = persist_state (kv s2) \<lparr>mIdx = 0, cIdx = 1, pIdx = 0\<rparr>"
    and other: "fl2 \<noteq> Next \<longrightarrow> fl = fl2 \<and> s' = s2"
    unfolding s1_def st by auto
  from scan_mangas_segment [OF sm] obtain rs where
    seg: "segment w s1 fl2 s2 rs"
    and ic: "in_catalog w mangaList (length (rounds s1)) rs"
    and bd: "\<forall>r \<in> set rs. mIdx (state s1) \<le> r_manga r
            \<and> (r_manga r = mIdx (state s1) \<longrightarrow> cIdx (state s1) \<le> r_chapter r
                 \<and> (r_chapter r = cIdx (state s1) \<longrightarrow> pIdx (state s1) \<le> r_offset r))"
    and hd: "rs \<noteq> [] \<longrightarrow>
            r_manga (hd rs) = mIdx (state s1) \<and> r_chapter (hd rs) = cIdx (state s1)
              \<and> r_offset (hd rs) = pIdx (state s1)
            \<or> mIdx (state s1) < r_manga (hd rs) \<and> r_chapter (hd rs) = 1 \<and> r_offset (hd rs) = 0"
    and ne: "0 < fuel \<and> 0 \<le> mIdx (state s1) \<and> mIdx (state s1) < int (length mangaList)
            \<and> cIdx (state s1) \<le> chapters (mangaList ! nat (mIdx (state s1))) \<longrightarrow>
          rs \<noteq> [] \<and> r_manga (hd rs) = mIdx (state s1)
            \<and> r_chapter (hd rs) = cIdx (state s1) \<and> r_offset (hd rs) = pIdx (state s1)"
    by auto
  from seg have rs: "rounds s2 = rs" by (simp add: segment_def s1_def)
  with r have rs': "rounds s' = rs" by simp
  from seg have chain: "successively follows rs"
    and budget: "\<forall>k < length rs. over_budget w k = (fl2 = Return \<and> Suc k = length rs)"
    and ret: "fl2 = Return \<longrightarrow> rs \<noteq> [] \<and> kv s2 = persist_state store (halt_checkpoint (last rs))"
    and keep: "fl2 \<noteq> Return \<longrightarrow> kv s2 = store"
    by (simp_all add: segment_def s1_def)
  show "successively follows (rounds s')" using chain rs' by simp
  show "in_catalog w mangaList 0 (rounds s')" using ic rs' by (simp add: s1_def)
  show "\<forall>r \<in> set (rounds s'). mIdx st \<le> r_manga r
            \<and> (r_manga r = mIdx st \<longrightarrow> cIdx st \<le> r_chapter r
                 \<and> (r_chapter r = cIdx st \<longrightarrow> pIdx st \<le> r_offset r))"
    using bd rs' by (simp add: s1_def)
  show "rounds s' \<noteq> [] \<longrightarrow>
            r_manga (hd (rounds s')) = mIdx st \<and> r_chapter (hd (rounds s')) = cIdx st
              \<and> r_offset (hd (rounds s')) = pIdx st
            \<or> mIdx st < r_manga (hd (rounds s')) \<and> r_chapter (hd (rounds s')) = 1
              \<and> r_offset (hd (rounds s')) = 0"
    using hd rs' by (simp add: s1_def)
  show "0 < fuel \<and> 0 \<le> mIdx st \<and> mIdx st < int (length mangaList)
            \<and> cIdx st \<le> chapters (mangaList ! nat (mIdx st)) \<longrightarrow>
          rounds s' \<noteq> [] \<and> r_manga (hd (rounds s')) = mIdx st
            \<and> r_chapter (hd (rounds s')) = cIdx st \<and> r_offset (hd (rounds s')) = pIdx st"
    using ne rs' by (simp add: s1_def)
  show "\<forall>k < length (rounds s'). over_budget w k \<longrightarrow>
           Suc k = length (rounds s') \<and> fl = Return
           \<and> kv s' = persist_state store (halt_checkpoint (rounds s' ! k))"
  proof (intro allI impI)
    fix k assume k: "k < length (rounds s')" and ob: "over_budget w k"
    with budget rs' have f2: "fl2 = Return" and last: "Suc k = length rs" by auto
    from f2 other have "fl = Return" "s' = s2" by auto
    moreover from last have "last rs = rs ! k"
      by (cases rs rule: rev_cases) (auto simp: nth_append)
    ultimately show "Suc k = length (rounds s') \<and> fl = Return
           \<and> kv s' = persist_state store (halt_checkpoint (rounds s' ! k))"
      using ret f2 last rs' by simp
  qed
  show "fl = Return \<and> (\<forall>k < length (rounds s'). \<not> over_budget w k) \<longrightarrow>
           kv s' = persist_state store \<lparr>mIdx = 0, cIdx = 1, pIdx = 0\<rparr>"
  proof (intro impI, elim conjE)
    assume f: "fl = Return" and nb: "\<forall>k < length (rounds s'). \<not> over_budget w k"
    have "fl2 \<noteq> Return"
    proof
      assume f2: "fl2 = Return"
      with ret have "rs \<noteq> []" by simp
      then have "length rs - 1 < length rs" by simp
      with budget f2 have "over_budget w (length rs - 1)" using \<open>rs \<noteq> []\<close> by auto
      with nb rs' \<open>length rs - 1 < length rs\<close> show False by simp
    qed
    with other f have "fl2 = Next" by auto
    with nx keep show "kv s' = persist_state store \<lparr>mIdx = 0, cIdx = 1, pIdx = 0\<rparr>" by simp
  qed
  show "fl \<noteq> Next" using nx other by auto
qed

lemma scan_pages_fuel:
  "scan_pages w fuel m i c p s = (OutOfFuel, s') \<Longrightarrow> length (rounds s) + fuel \<le> length (rounds s')"
  using scan_pages_run [of w fuel m i c p s OutOfFuel s'] by auto

lemma scan_chapters_fuel:
  "scan_chapters w fuel m i c s = (OutOfFuel, s') \<Longrightarrow> length (rounds s) + fuel \<le> length (rounds s')"
proof (induction w fuel m i c s rule: scan_chapters.induct)
  case (1 w fuel m i c s)
  define p0 where "p0 = (if i = mIdx (state s) \<and> c = cIdx (state s) then pIdx (state s) else 0)"
  from "1.prems" have inside: "c \<le> chapters m"
    by (auto simp: scan_chapters.simps [of w fuel m i c s] split: if_splits)
  obtain fl1 s1 where pages: "scan_pages w fuel m i c p0 s = (fl1, s1)"
    by (cases "scan_pages w fuel m i c p0 s")
  show ?case
  proof (cases "fl1 = Next")
    case False
    with inside pages "1.prems" have "fl1 = OutOfFuel" "s' = s1"
      by (cases fl1; simp add: scan_chapters.simps [of w fuel m i c s] p0_def [symmetric])+
    with pages show ?thesis by (simp add: scan_pages_fuel)
  next
    case nx: True
    define s1' where "s1' = s1\<lparr>state := (state s1)\<lparr>pIdx := 0\<rparr>\<rparr>"
    from inside pages nx "1.prems" have rec: "scan_chapters w fuel m i (c + 1) s1' = (OutOfFuel, s')"
      by (simp add: scan_chapters.simps [of w fuel m i c s] p0_def [symmetric] s1'_def)
    have "length (rounds s1') + fuel \<le> length (rounds s')"
      using "1.IH" [OF inside p0_def pages [symmetric] nx, folded s1'_def, OF rec] .
    moreover from scan_pages_run [OF pages] have "length (rounds s) \<le> length (rounds s1)"
      by auto
    ultimately show ?thesis by (simp add: s1'_def)
  qed
qed

lemma scan_mangas_fuel:
  "scan_mangas w fuel mangaList i s = (OutOfFuel, s') \<Longrightarrow>
   length (rounds s) + fuel \<le> length (rounds s')"
proof (induction w fuel mangaList i s rule: scan_mangas.induct)
  case (1 w fuel mangaList i s)
  define c0 where "c0 = (if i = mIdx (state s) then cIdx (state s) else 1)"
  define m where "m = mangaList ! nat i"
  from "1.prems" have inside: "i < int (length mangaList)" and nonneg: "\<not> i < 0"
    by (auto simp: scan_mangas.simps [of w fuel mangaList i s] split: if_splits)
  obtain fl1 s1 where chaps: "scan_chapters w fuel m i c0 s = (fl1, s1)"
    by (cases "scan_chapters w fuel m i c0 s")
  show ?case
  proof (cases "fl1 = Next")
    case False
    with inside nonneg chaps "1.prems" have "fl1 = OutOfFuel" "s' = s1"
      by (cases fl1; simp add: scan_mangas.simps [of w fuel mangaList i s]
            c0_def [symmetric] m_def [symmetric])+
    with chaps show ?thesis by (simp add: scan_chapters_fuel)
  next
    case nx: True
    define s1' where "s1' = s1\<lparr>state := (state s1)\<lparr>cIdx := 1\<rparr>\<rparr>"
    from inside nonneg chaps nx "1.prems" have rec: "scan_mangas w fuel mangaList (i + 1) s1' = (OutOfFuel, s')"
      by (simp add: scan_mangas.simps [of w fuel mangaList i s]
            c0_def [symmetric] m_def [symmetric] s1'_def)
    have "length (rounds s1') + fuel \<le> length (rounds s')"
      using "1.IH" [OF inside nonneg m_def c0_def chaps [symmetric] nx, folded s1'_def, OF rec] .
    moreover from scan_chapters_segment [OF chaps] have "length (rounds s) \<le> length (rounds s1)"
      by (auto simp: segment_def)
    ultimately show ?thesis by (simp add: s1'_def)
  qed
qed

text \<open>
  The fuel of the model does not hide a job that runs forever while the clock advances: if
  the budget is exceeded at every check from round \<open>N\<close> on, more than \<open>N\<close> units of fuel are
  never used up.
\<close>

lemma job_ends_when_clock_advances:
  assumes cat: "catalog w = Fetched True (Array mangaList)"
    and clock: "\<forall>n \<ge> N. over_budget w n"
    and fuel: "N < fuel"
  shows "fst (runSmartCacher w fuel store) \<noteq> OutOfFuel"
proof
  assume out: "fst (runSmartCacher w fuel store) = OutOfFuel"
  obtain s' where run: "runSmartCacher w fuel store = (OutOfFuel, s')"
    using out by (cases "runSmartCacher w fuel store") auto
  from runSmartCacher_traverse [OF cat run] obtain fl2 s2 where
    sm2: "scan_mangas w fuel mangaList (mIdx (load_state (JSON_parse w) store))
              \<lparr>kv = store, state = load_state (JSON_parse w) store, rounds = []\<rparr> = (fl2, s2)"
    and r: "rounds s' = rounds s2"
    and nx: "fl2 = Next \<longrightarrow> OutOfFuel = Return"
    and other: "fl2 \<noteq> Next \<longrightarrow> OutOfFuel = fl2"
    by blast
  from nx other have "fl2 = OutOfFuel" by auto
  with sm2 have sm: "scan_mangas w fuel mangaList (mIdx (load_state (JSON_parse w) store))
              \<lparr>kv = store, state = load_state (JSON_parse w) store, rounds = []\<rparr> = (OutOfFuel, s2)"
    by simp
  from scan_mangas_fuel [OF sm] r fuel have "N < length (rounds s')" by simp
  moreover from clock have "over_budget w N" by simp
  ultimately have "Suc N = length (rounds s') \<and> OutOfFuel = Return"
    using runSmartCacher_rounds(6) [OF cat run refl] by blast
  then show False by simp
qed

lemma follows_new_manga:
  "follows r r' \<Longrightarrow> r_manga r \<noteq> r_manga r' \<Longrightarrow> r_chapter r' = 1 \<and> r_offset r' = 0"
  by (auto simp: follows_def split: if_splits)

lemma follows_new_chapter:
  "follows r r' \<Longrightarrow> r_manga r \<noteq> r_manga r' \<or> r_chapter r \<noteq> r_chapter r' \<Longrightarrow> r_offset r' = 0"
  by (auto simp: follows_def split: if_splits)

lemma in_catalog_results:
  assumes "in_catalog w mangaList 0 rs" "k < length rs"
  shows "r_results (rs ! k) =
           map (\<lambda>page. warmUpPage (origin_at w k) (name (mangaList ! nat (r_manga (rs ! k))))
                         (r_chapter (rs ! k)) page)
               (batch_pages (r_offset (rs ! k)))"
  using assms by (simp add: in_catalog_def run_batch_def)

subsection \<open>Resuming from the checkpoint\<close>

text \<open>
  Claim C1, as amended. Let \<open>st\<close> be the checkpoint the job loads and \<open>rs\<close> the batch rounds
  it issues, in order. When the checkpoint addresses a chapter of the catalog (its manga
  index is within the catalog and its chapter number does not exceed the chapter count of
  that manga), the first round warms manga \<open>mIdx st\<close>, chapter \<open>cIdx st\<close>, from page
  \<open>pIdx st\<close>. For every catalog and checkpoint: no round is at a manga below \<open>mIdx st\<close>,
  within manga \<open>mIdx st\<close> no round is at a chapter below \<open>cIdx st\<close>, and no page that a
  round of chapter \<open>cIdx st\<close> of that manga attempts is below \<open>pIdx st\<close>; the first round of
  every other manga is at chapter 1; and the first round of every (manga, chapter) pair
  other than the resumed pair starts at page offset 0.
\<close>

theorem resume_position:
  fixes w fuel store
  defines "st \<equiv> load_state (JSON_parse w) store"
    and "rs \<equiv> rounds (snd (runSmartCacher w fuel store))"
  assumes cat: "catalog w = Fetched True (Array mangaList)"
  shows "(0 < fuel \<and> 0 \<le> mIdx st \<and> mIdx st < int (length mangaList)
            \<and> cIdx st \<le> chapters (mangaList ! nat (mIdx st)) \<longrightarrow>
          rs \<noteq> [] \<and> r_manga (hd rs) = mIdx st \<and> r_chapter (hd rs) = cIdx st
            \<and> r_offset (hd rs) = pIdx st)
     \<and> (\<forall>r \<in> set rs. mIdx st \<le> r_manga r
            \<and> (r_manga r = mIdx st \<longrightarrow> cIdx st \<le> r_chapter r
                 \<and> (r_chapter r = cIdx st \<longrightarrow> (\<forall>page \<in> set (batch_pages (r_offset r)). pIdx st \<le> page))))
     \<and> (\<forall>k < length rs. r_manga (rs ! k) \<noteq> mIdx st \<and> (\<forall>j < k. r_manga (rs ! j) \<noteq> r_manga (rs ! k)) \<longrightarrow>
            r_chapter (rs ! k) = 1)
     \<and> (\<forall>k < length rs. (r_manga (rs ! k) \<noteq> mIdx st \<or> r_chapter (rs ! k) \<noteq> cIdx st)
            \<and> (\<forall>j < k. r_manga (rs ! j) \<noteq> r_manga (rs ! k) \<or> r_chapter (rs ! j) \<noteq> r_chapter (rs ! k)) \<longrightarrow>
            r_offset (rs ! k) = 0)"
proof -
  obtain fl s' where run: "runSmartCacher w fuel store = (fl, s')"
    by (cases "runSmartCacher w fuel store")
  then have rs: "rs = rounds s'" by (simp add: rs_def)
  note facts = runSmartCacher_rounds [OF cat run st_def [THEN meta_eq_to_obj_eq], folded rs]
  have chain: "successively follows rs" by (rule facts(1))
  have first: "rs \<noteq> [] \<longrightarrow>
            r_manga (hd rs) = mIdx st \<and> r_chapter (hd rs) = cIdx st \<and> r_offset (hd rs) = pIdx st
            \<or> mIdx st < r_manga (hd rs) \<and> r_chapter (hd rs) = 1 \<and> r_offset (hd rs) = 0"
    by (rule facts(4))
  have A: "0 < fuel \<and> 0 \<le> mIdx st \<and> mIdx st < int (length mangaList)
            \<and> cIdx st \<le> chapters (mangaList ! nat (mIdx st)) \<longrightarrow>
          rs \<noteq> [] \<and> r_manga (hd rs) = mIdx st \<and> r_chapter (hd rs) = cIdx st
            \<and> r_offset (hd rs) = pIdx st"
    by (rule facts(5))
  have B: "\<forall>r \<in> set rs. mIdx st \<le> r_manga r
            \<and> (r_manga r = mIdx st \<longrightarrow> cIdx st \<le> r_chapter r
                 \<and> (r_chapter r = cIdx st \<longrightarrow> (\<forall>page \<in> set (batch_pages (r_offset r)). pIdx st \<le> page)))"
    using facts(3) by (auto simp: batch_pages_eq)
  have C: "\<forall>k < length rs. r_manga (rs ! k) \<noteq> mIdx st \<and> (\<forall>j < k. r_manga (rs ! j) \<noteq> r_manga (rs ! k)) \<longrightarrow>
            r_chapter (rs ! k) = 1"
  proof (intro allI impI, elim conjE)
    fix k assume k: "k < length rs" and other: "r_manga (rs ! k) \<noteq> mIdx st"
      and fresh: "\<forall>j < k. r_manga (rs ! j) \<noteq> r_manga (rs ! k)"
    show "r_chapter (rs ! k) = 1"
    proof (cases k)
      case 0
      with k have "rs \<noteq> []" "hd rs = rs ! k" by (auto simp: hd_conv_nth)
      with first other show ?thesis by auto
    next
      case (Suc j)
      with k chain have "follows (rs ! j) (rs ! k)" by (simp add: successively_nth)
      moreover from fresh Suc have "r_manga (rs ! j) \<noteq> r_manga (rs ! k)" by simp
      ultimately show ?thesis by (blast dest: follows_new_manga)
    qed
  qed
  have D: "\<forall>k < length rs. (r_manga (rs ! k) \<noteq> mIdx st \<or> r_chapter (rs ! k) \<noteq> cIdx st)
            \<and> (\<forall>j < k. r_manga (rs ! j) \<noteq> r_manga (rs ! k) \<or> r_chapter (rs ! j) \<noteq> r_chapter (rs ! k)) \<longrightarrow>
            r_offset (rs ! k) = 0"
  proof (intro allI impI, elim conjE)
    fix k assume k: "k < length rs"
      and other: "r_manga (rs ! k) \<noteq> mIdx st \<or> r_chapter (rs ! k) \<noteq> cIdx st"
      and fresh: "\<forall>j < k. r_manga (rs ! j) \<noteq> r_manga (rs ! k) \<or> r_chapter (rs ! j) \<noteq> r_chapter (rs ! k)"
    show "r_offset (rs ! k) = 0"
    proof (cases k)
      case 0
      with k have "rs \<noteq> []" "hd rs = rs ! k" by (auto simp: hd_conv_nth)
      with first other show ?thesis by auto
    next
      case (Suc j)
      with k chain have "follows (rs ! j) (rs ! k)" by (simp add: successively_nth)
      moreover from fresh Suc
      have "r_manga (rs ! j) \<noteq> r_manga (rs ! k) \<or> r_chapter (rs ! j) \<noteq> r_chapter (rs ! k)" by simp
      ultimately show ?thesis by (blast dest: follows_new_chapter)
    qed
  qed
  from A B C D show ?thesis by blast
qed

theorem resume_position_witness:
  "catalog resume_world = Fetched True (Array [\<lparr>name = ''A'', chapters = 2\<rparr>])
   \<and> load_state (JSON_parse resume_world) (demo_store \<lparr>mIdx = 0, cIdx = 2, pIdx = 3\<rparr>)
       = \<lparr>mIdx = 0, cIdx = 2, pIdx = 3\<rparr>
   \<and> rounds (snd (runSmartCacher resume_world 7 (demo_store \<lparr>mIdx = 0, cIdx = 2, pIdx = 3\<rparr>))) \<noteq> []
   \<and> r_manga (hd (rounds (snd (runSmartCacher resume_world 7 (demo_store \<lparr>mIdx = 0, cIdx = 2, pIdx = 3\<rparr>))))) = 0
   \<and> r_chapter (hd (rounds (snd (runSmartCacher resume_world 7 (demo_store \<lparr>mIdx = 0, cIdx = 2, pIdx = 3\<rparr>))))) = 2
   \<and> r_offset (hd (rounds (snd (runSmartCacher resume_world 7 (demo_store \<lparr>mIdx = 0, cIdx = 2, pIdx = 3\<rparr>))))) = 3"
proof -
  let ?store = "demo_store \<lparr>mIdx = 0, cIdx = 2, pIdx = 3\<rparr>"
  have cat: "catalog resume_world = Fetched True (Array [\<lparr>name = ''A'', chapters = 2\<rparr>])"
    by (simp add: resume_world_def demo_world_def)
  have st: "load_state (JSON_parse resume_world) ?store = \<lparr>mIdx = 0, cIdx = 2, pIdx = 3\<rparr>"
    by code_simp
  from resume_position [OF cat, of 7 ?store, THEN conjunct1] cat st show ?thesis
    by simp
qed

text \<open>
  Claim C1 as stated, for every catalog and every checkpoint, fails: with the catalog
  \<open>[A (1 chapter), B (1 chapter)]\<close> and the checkpoint \<open>{0, 2, 3}\<close> the loop over the
  chapters of manga 0 is not entered, and the job begins warming at manga 1, chapter 1,
  page 0.
\<close>

theorem resume_position_counterexample:
  "load_state (JSON_parse skip_world) (demo_store \<lparr>mIdx = 0, cIdx = 2, pIdx = 3\<rparr>)
       = \<lparr>mIdx = 0, cIdx = 2, pIdx = 3\<rparr>
   \<and> rounds (snd (runSmartCacher skip_world 7 (demo_store \<lparr>mIdx = 0, cIdx = 2, pIdx = 3\<rparr>))) =
       [\<lparr>r_manga = 1, r_chapter = 1, r_offset = 0, r_results = [False, False, False, False, False]\<rparr>]"
  by code_simp

subsection \<open>Batch reduction\<close>

text \<open>
  Claim C2. Every batch round \<open>k\<close> of a run, starting at page offset \<open>p\<close>, consists of the
  warm-up results of the \<open>BATCH_SIZE\<close> consecutive pages \<open>p, ..., p + BATCH_SIZE - 1\<close> of its
  manga and chapter. A round in which all succeed is followed, if at all, by a round of the
  same chapter at offset \<open>p + BATCH_SIZE\<close>; a round with a failure ends the chapter, and the
  next round starts at page offset 0 of the next chapter (of the same manga, or chapter 1
  of a later manga). The reduction yields \<open>(p + BATCH_SIZE, continue)\<close> when all succeed and
  \<open>(p + j, chapter finished)\<close> when \<open>j\<close> is the first failed position; and while the time
  budget holds, the page loop continues at the advanced offset exactly when no page
  failed, and otherwise leaves the chapter.
\<close>

theorem batch_reduction:
  fixes w fuel store
  defines "rs \<equiv> rounds (snd (runSmartCacher w fuel store))"
  assumes cat: "catalog w = Fetched True (Array mangaList)"
  shows "(\<forall>k < length rs.
            r_results (rs ! k) =
              map (\<lambda>page. warmUpPage (origin_at w k) (name (mangaList ! nat (r_manga (rs ! k))))
                            (r_chapter (rs ! k)) page)
                  [r_offset (rs ! k) .. r_offset (rs ! k) + BATCH_SIZE - 1]
            \<and> int (length (r_results (rs ! k))) = BATCH_SIZE)
     \<and> (\<forall>k. Suc k < length rs \<longrightarrow>
            (if False \<notin> set (r_results (rs ! k))
             then r_manga (rs ! Suc k) = r_manga (rs ! k) \<and> r_chapter (rs ! Suc k) = r_chapter (rs ! k)
                  \<and> r_offset (rs ! Suc k) = r_offset (rs ! k) + BATCH_SIZE
             else r_offset (rs ! Suc k) = 0
                  \<and> (r_manga (rs ! Suc k) = r_manga (rs ! k) \<and> r_chapter (rs ! Suc k) = r_chapter (rs ! k) + 1
                     \<or> r_manga (rs ! k) < r_manga (rs ! Suc k) \<and> r_chapter (rs ! Suc k) = 1)))
     \<and> (\<forall>p results. False \<notin> set results \<longrightarrow> reduce_batch p results = (p + BATCH_SIZE, False))
     \<and> (\<forall>p results j. j < length results \<and> \<not> results ! j \<and> (\<forall>b < j. results ! b) \<longrightarrow>
            reduce_batch p results = (p + int j, True))
     \<and> (\<forall>n m i c p s. \<not> over_budget w (length (rounds s)) \<longrightarrow>
            scan_pages w (Suc n) m i c p s =
              (let results = run_batch (origin_at w (length (rounds s))) (name m) c p;
                   s1 = s\<lparr>rounds := rounds s @ [\<lparr>r_manga = i, r_chapter = c, r_offset = p, r_results = results\<rparr>]\<rparr>
               in if False \<notin> set results then scan_pages w n m i c (p + BATCH_SIZE) s1 else (Next, s1)))"
proof -
  obtain fl s' where run: "runSmartCacher w fuel store = (fl, s')"
    by (cases "runSmartCacher w fuel store")
  then have rs: "rs = rounds s'" by (simp add: rs_def)
  note facts = runSmartCacher_rounds [OF cat run refl, folded rs]
  have pages: "[p .. p + BATCH_SIZE - 1] = batch_pages p" for p
    by (simp add: batch_pages_eq BATCH_SIZE_def upto.simps)
  have A: "\<forall>k < length rs.
            r_results (rs ! k) =
              map (\<lambda>page. warmUpPage (origin_at w k) (name (mangaList ! nat (r_manga (rs ! k))))
                            (r_chapter (rs ! k)) page)
                  [r_offset (rs ! k) .. r_offset (rs ! k) + BATCH_SIZE - 1]
            \<and> int (length (r_results (rs ! k))) = BATCH_SIZE"
  proof (intro allI impI)
    fix k assume k: "k < length rs"
    from in_catalog_results [OF facts(2) k]
    show "r_results (rs ! k) =
              map (\<lambda>page. warmUpPage (origin_at w k) (name (mangaList ! nat (r_manga (rs ! k))))
                            (r_chapter (rs ! k)) page)
                  [r_offset (rs ! k) .. r_offset (rs ! k) + BATCH_SIZE - 1]
            \<and> int (length (r_results (rs ! k))) = BATCH_SIZE"
      unfolding pages by (simp add: batch_pages_eq BATCH_SIZE_def)
  qed
  have B: "\<forall>k. Suc k < length rs \<longrightarrow>
            (if False \<notin> set (r_results (rs ! k))
             then r_manga (rs ! Suc k) = r_manga (rs ! k) \<and> r_chapter (rs ! Suc k) = r_chapter (rs ! k)
                  \<and> r_offset (rs ! Suc k) = r_offset (rs ! k) + BATCH_SIZE
             else r_offset (rs ! Suc k) = 0
                  \<and> (r_manga (rs ! Suc k) = r_manga (rs ! k) \<and> r_chapter (rs ! Suc k) = r_chapter (rs ! k) + 1
                     \<or> r_manga (rs ! k) < r_manga (rs ! Suc k) \<and> r_chapter (rs ! Suc k) = 1))"
    using successively_nth [OF facts(1)] unfolding follows_def by blast
  have C: "\<forall>p results. False \<notin> set results \<longrightarrow> reduce_batch p results = (p + BATCH_SIZE, False)"
    by (simp add: reduce_batch_all_ok)
  have D: "\<forall>p results j. j < length results \<and> \<not> results ! j \<and> (\<forall>b < j. results ! b) \<longrightarrow>
            reduce_batch p results = (p + int j, True)"
    by (blast intro: reduce_batch_first_failure)
  have E: "\<forall>n m i c p s. \<not> over_budget w (length (rounds s)) \<longrightarrow>
            scan_pages w (Suc n) m i c p s =
              (let results = run_batch (origin_at w (length (rounds s))) (name m) c p;
                   s1 = s\<lparr>rounds := rounds s @ [\<lparr>r_manga = i, r_chapter = c, r_offset = p, r_results = results\<rparr>]\<rparr>
               in if False \<notin> set results then scan_pages w n m i c (p + BATCH_SIZE) s1 else (Next, s1))"
    by (simp del: scan_pages.simps add: scan_pages_Suc Let_def)
  from A B C D E show ?thesis by blast
qed

theorem batch_reduction_witness:
  "catalog batch_world = Fetched True (Array [\<lparr>name = ''A'', chapters = 2\<rparr>])
   \<and> rounds (snd (runSmartCacher batch_world 7 Map.empty)) =
       [\<lparr>r_manga = 0, r_chapter = 1, r_offset = 0, r_results = [True, True, True, True, True]\<rparr>,
        \<lparr>r_manga = 0, r_chapter = 1, r_offset = 5, r_results = [True, True, False, False, False]\<rparr>,
        \<lparr>r_manga = 0, r_chapter = 2, r_offset = 0, r_results = [True, True, False, True, True]\<rparr>]
   \<and> reduce_batch 0 [True, True, True, True, True] = (5, False)
   \<and> reduce_batch 0 [True, True, False, True, True] = (2, True)"
proof -
  have cat: "catalog batch_world = Fetched True (Array [\<lparr>name = ''A'', chapters = 2\<rparr>])"
    by (simp add: batch_world_def demo_world_def)
  have rs: "rounds (snd (runSmartCacher batch_world 7 Map.empty)) =
       [\<lparr>r_manga = 0, r_chapter = 1, r_offset = 0, r_results = [True, True, True, True, True]\<rparr>,
        \<lparr>r_manga = 0, r_chapter = 1, r_offset = 5, r_results = [True, True, False, False, False]\<rparr>,
        \<lparr>r_manga = 0, r_chapter = 2, r_offset = 0, r_results = [True, True, False, True, True]\<rparr>]"
    by code_simp
  note inst = batch_reduction [OF cat, of 7 Map.empty]
  have "reduce_batch 0 [True, True, True, True, True] = (0 + BATCH_SIZE, False)"
    by (rule inst [THEN conjunct2, THEN conjunct2, THEN conjunct1, rule_format]) simp
  moreover have "reduce_batch 0 [True, True, False, True, True] = (0 + int 2, True)"
    by (rule inst [THEN conjunct2, THEN conjunct2, THEN conjunct2, THEN conjunct1, rule_format])
       (auto simp: less_2_cases_iff)
  ultimately show ?thesis using cat rs by (simp add: BATCH_SIZE_def)
qed

subsection \<open>The time budget\<close>

text \<open>
  Claim C3. The budget is checked after every batch round: whenever the elapsed time
  exceeds 24 seconds at the check after round \<open>k\<close>, round \<open>k\<close> is the last round of the
  invocation (nothing is fetched afterwards), the job returns, and the store is the initial
  store with exactly the triple of that round written: its manga index, its chapter, and
  the page offset reached after the round, \<open>p + BATCH_SIZE\<close> when all pages succeeded and
  \<open>p\<close> plus the index of the first failure otherwise.
\<close>

theorem time_budget_halt:
  fixes w fuel store
  defines "fl \<equiv> fst (runSmartCacher w fuel store)"
    and "s' \<equiv> snd (runSmartCacher w fuel store)"
  assumes cat: "catalog w = Fetched True (Array mangaList)"
    and k: "k < length (rounds s')"
    and over: "over_budget w k"
  shows "Suc k = length (rounds s') \<and> fl = Return
     \<and> kv s' = store(''nightly_step'' \<mapsto> JSON_stringify
          \<lparr>mIdx = r_manga (rounds s' ! k), cIdx = r_chapter (rounds s' ! k),
           pIdx = (if False \<in> set (r_results (rounds s' ! k))
                   then r_offset (rounds s' ! k) + indexOf (r_results (rounds s' ! k)) False
                   else r_offset (rounds s' ! k) + BATCH_SIZE)\<rparr>)"
proof -
  have run: "runSmartCacher w fuel store = (fl, s')"
    by (simp add: fl_def s'_def)
  have "Suc k = length (rounds s') \<and> fl = Return
           \<and> kv s' = persist_state store (halt_checkpoint (rounds s' ! k))"
    using runSmartCacher_rounds(6) [OF cat run refl] k over by blast
  then show ?thesis
    by (simp add: persist_state_def halt_checkpoint_def reduce_batch_def Let_def indexOf_none)
qed

theorem time_budget_halt_witness:
  "catalog deadline_world = Fetched True (Array [\<lparr>name = ''A'', chapters = 3\<rparr>])
   \<and> over_budget deadline_world 0
   \<and> rounds (snd (runSmartCacher deadline_world 7 (demo_store \<lparr>mIdx = 0, cIdx = 3, pIdx = 10\<rparr>))) =
       [\<lparr>r_manga = 0, r_chapter = 3, r_offset = 10, r_results = [True, True, True, True, True]\<rparr>]
   \<and> fst (runSmartCacher deadline_world 7 (demo_store \<lparr>mIdx = 0, cIdx = 3, pIdx = 10\<rparr>)) = Return
   \<and> kv (snd (runSmartCacher deadline_world 7 (demo_store \<lparr>mIdx = 0, cIdx = 3, pIdx = 10\<rparr>))) =
       (demo_store \<lparr>mIdx = 0, cIdx = 3, pIdx = 10\<rparr>)
         (''nightly_step'' \<mapsto> JSON_stringify \<lparr>mIdx = 0, cIdx = 3, pIdx = 15\<rparr>)"
proof -
  let ?run = "runSmartCacher deadline_world 7 (demo_store \<lparr>mIdx = 0, cIdx = 3, pIdx = 10\<rparr>)"
  have cat: "catalog deadline_world = Fetched True (Array [\<lparr>name = ''A'', chapters = 3\<rparr>])"
    by (simp add: deadline_world_def demo_world_def)
  have over: "over_budget deadline_world 0"
    by (simp add: deadline_world_def demo_world_def over_budget_def)
  have rs: "rounds (snd ?run) =
       [\<lparr>r_manga = 0, r_chapter = 3, r_offset = 10, r_results = [True, True, True, True, True]\<rparr>]"
    by code_simp
  then have k: "0 < length (rounds (snd ?run))" by simp
  from time_budget_halt [OF cat k over] have "fst ?run = Return"
    and "kv (snd ?run) = (demo_store \<lparr>mIdx = 0, cIdx = 3, pIdx = 10\<rparr>)
         (''nightly_step'' \<mapsto> JSON_stringify \<lparr>mIdx = 0, cIdx = 3, pIdx = 15\<rparr>)"
    by (simp_all add: rs BATCH_SIZE_def)
  with cat over rs show ?thesis by simp
qed

subsection \<open>Completion of a full pass\<close>

text \<open>
  Claim C7. When the job, having fetched the catalog, returns without the budget having
  been exceeded at any of its rounds (so the loops over the catalog ran to their end), the
  store is the initial store with \<open>{mIdx: 0, cIdx: 1, pIdx: 0}\<close> written.
\<close>

theorem full_pass_reset:
  fixes w fuel store
  defines "fl \<equiv> fst (runSmartCacher w fuel store)"
    and "s' \<equiv> snd (runSmartCacher w fuel store)"
  assumes cat: "catalog w = Fetched True (Array mangaList)"
    and returned: "fl = Return"
    and in_time: "\<forall>k < length (rounds s'). \<not> over_budget w k"
  shows "kv s' = store(''nightly_step'' \<mapsto> JSON_stringify \<lparr>mIdx = 0, cIdx = 1, pIdx = 0\<rparr>)"
proof -
  have run: "runSmartCacher w fuel store = (fl, s')"
    by (simp add: fl_def s'_def)
  from runSmartCacher_rounds(7) [OF cat run refl] returned in_time
  show ?thesis by (simp add: persist_state_def)
qed

theorem full_pass_reset_witness:
  "catalog resume_world = Fetched True (Array [\<lparr>name = ''A'', chapters = 2\<rparr>])
   \<and> fst (runSmartCacher resume_world 7 (demo_store \<lparr>mIdx = 0, cIdx = 2, pIdx = 3\<rparr>)) = Return
   \<and> rounds (snd (runSmartCacher resume_world 7 (demo_store \<lparr>mIdx = 0, cIdx = 2, pIdx = 3\<rparr>))) =
       [\<lparr>r_manga = 0, r_chapter = 2, r_offset = 3, r_results = [True, True, True, True, True]\<rparr>,
        \<lparr>r_manga = 0, r_chapter = 2, r_offset = 8, r_results = [True, True, False, False, False]\<rparr>]
   \<and> \<not> over_budget resume_world 0 \<and> \<not> over_budget resume_world 1
   \<and> kv (snd (runSmartCacher resume_world 7 (demo_store \<lparr>mIdx = 0, cIdx = 2, pIdx = 3\<rparr>))) =
       (demo_store \<lparr>mIdx = 0, cIdx = 2, pIdx = 3\<rparr>)
         (''nightly_step'' \<mapsto> JSON_stringify \<lparr>mIdx = 0, cIdx = 1, pIdx = 0\<rparr>)"
proof -
  let ?run = "runSmartCacher resume_world 7 (demo_store \<lparr>mIdx = 0, cIdx = 2, pIdx = 3\<rparr>)"
  have cat: "catalog resume_world = Fetched True (Array [\<lparr>name = ''A'', chapters = 2\<rparr>])"
    by (simp add: resume_world_def demo_world_def)
  have ret: "fst ?run = Return"
    by code_simp
  have rs: "rounds (snd ?run) =
       [\<lparr>r_manga = 0, r_chapter = 2, r_offset = 3, r_results = [True, True, True, True, True]\<rparr>,
        \<lparr>r_manga = 0, r_chapter = 2, r_offset = 8, r_results = [True, True, False, False, False]\<rparr>]"
    by code_simp
  have t: "\<not> over_budget resume_world 0" "\<not> over_budget resume_world 1"
    by (simp_all add: resume_world_def demo_world_def over_budget_def)
  have in_time: "\<forall>k < length (rounds (snd ?run)). \<not> over_budget resume_world k"
    using t by (simp add: rs less_Suc_eq)
  from full_pass_reset [OF cat ret in_time] cat ret rs t show ?thesis by simp
qed

subsection \<open>The catalog is unavailable\<close>

text \<open>
  Claim C6. When the catalog fetch fails (a network error or the timeout), answers with a
  status that is not a success, or carries a payload that is not a JSON array (it does
  not parse, or parses to something else), the invocation returns having issued no batch
  round, hence no page warm-up, and the checkpoint store is the store it started with.
\<close>

theorem catalog_unavailable_noop:
  assumes "catalog w = FetchFailed \<or> (\<exists>payload. catalog w = Fetched False payload)
           \<or> catalog w = Fetched True BadJson \<or> catalog w = Fetched True NotArray"
  shows "fst (runSmartCacher w fuel store) = Return
         \<and> kv (snd (runSmartCacher w fuel store)) = store
         \<and> rounds (snd (runSmartCacher w fuel store)) = []"
  using assms by (auto simp: runSmartCacher_def)

theorem catalog_unavailable_noop_witness:
  "fst (runSmartCacher
          \<lparr>start_time = 0, now_at = (\<lambda>n. 0),
           catalog = Fetched False (Array [\<lparr>name = ''A'', chapters = 2\<rparr>]),
           origin_at = (\<lambda>n u. NetFail), JSON_parse = (\<lambda>s. SyntaxError)\<rparr>
          3 [''nightly_step'' \<mapsto> ''x'']) = Return
   \<and> kv (snd (runSmartCacher
          \<lparr>start_time = 0, now_at = (\<lambda>n. 0),
           catalog = Fetched False (Array [\<lparr>name = ''A'', chapters = 2\<rparr>]),
           origin_at = (\<lambda>n u. NetFail), JSON_parse = (\<lambda>s. SyntaxError)\<rparr>
          3 [''nightly_step'' \<mapsto> ''x''])) = [''nightly_step'' \<mapsto> ''x'']
   \<and> rounds (snd (runSmartCacher
          \<lparr>start_time = 0, now_at = (\<lambda>n. 0),
           catalog = Fetched False (Array [\<lparr>name = ''A'', chapters = 2\<rparr>]),
           origin_at = (\<lambda>n u. NetFail), JSON_parse = (\<lambda>s. SyntaxError)\<rparr>
          3 [''nightly_step'' \<mapsto> ''x''])) = []"
  using catalog_unavailable_noop [of "\<lparr>start_time = 0, now_at = (\<lambda>n. 0),
           catalog = Fetched False (Array [\<lparr>name = ''A'', chapters = 2\<rparr>]),
           origin_at = (\<lambda>n u. NetFail), JSON_parse = (\<lambda>s. SyntaxError)\<rparr>" 3 "[''nightly_step'' \<mapsto> ''x'']"]
  by simp

end
